theory Spec2Isabelle
  imports Main
begin

section \<open>Enumerations (enums.ThreadStatus, JVMTIThreadState, StackFrameType, OpCode)\<close>

datatype ThreadStatus =
  NEW | RUNNABLE | RUNNING | BLOCKED | UNINTERRUPTABLY_BLOCKED
  | WAITING | TIMED_WAITING | ASYNC_WAITING | PARKED | TERMINATED

text \<open>
  The JVMTI thread states written into the Java field
  \<^verbatim>\<open>java/lang/Thread/threadStatus\<close>. The source computes \<^verbatim>\<open>0 | STATE\<close>, which is
  the enumeration value itself, so the field is modelled as holding the enumeration
  value.
\<close>

datatype JVMTIThreadState =
  ALIVE | JVMTI_TERMINATED | JVMTI_RUNNABLE | BLOCKED_ON_MONITOR_ENTER
  | WAITING_INDEFINITELY | WAITING_WITH_TIMEOUT

datatype StackFrameType = BYTECODE | NATIVE | INTERNAL

text \<open>
  A byte of the code array, read through the \<^verbatim>\<open>enums.OpCode\<close> enumeration: the
  invoke opcodes that \<^verbatim>\<open>scheduleResume\<close> names, and every other byte value.
\<close>

datatype OpCode =
  INVOKEINTERFACE | INVOKEINTERFACE_FAST
  | INVOKESPECIAL | INVOKESTATIC | INVOKEVIRTUAL
  | INVOKESTATIC_FAST | INVOKENONVIRTUAL_FAST | INVOKEVIRTUAL_FAST
  | INVOKEHANDLE | INVOKEBASIC | LINKTOSPECIAL | LINKTOVIRTUAL
  | INVOKEDYNAMIC | INVOKEDYNAMIC_FAST
  | OTHER_OPCODE nat

text \<open>
  What a JavaScript \<^verbatim>\<open>throw\<close> carries: a failed \<^verbatim>\<open>assert\<close> (the assert module
  throws), a property read on \<^verbatim>\<open>undefined\<close>, a buffer read out of range.
\<close>

datatype error = AssertionError | TypeError | RangeError

section \<open>Data model\<close>

type_synonym ClassData = string
type_synonym Monitor = nat
type_synonym tid = nat

datatype java_lang_Throwable = Throwable (getRefOf: nat) (getClass: ClassData)

text \<open>Operand slots and return values; an absent (undefined) value is \<open>None\<close> of \<open>val option\<close>.\<close>

datatype val = NullV | BoolV bool | NumV int | ObjV java_lang_Throwable

record ExceptionHandler =
  startPC :: nat
  endPC :: nat
  handlerPC :: nat
  catchType :: string

record Method =
  fullSignature :: string
  isSynchronized :: bool
  code :: "OpCode list"
  exceptionHandlers :: "ExceptionHandler list"
  loader :: nat

text \<open>
  The frame fields \<^verbatim>\<open>stack\<close> and \<^verbatim>\<open>method\<close> of the source are \<open>opstack\<close> and
  \<open>bmethod\<close> (\<open>nmethod\<close> in a native frame) here. The operand stack is the source's
  array: \<^verbatim>\<open>push\<close> appends at the end.
\<close>

record BytecodeStackFrame =
  pc :: nat
  locals :: "val list"
  opstack :: "val list"
  returnToThreadLoop :: bool
  lockedMethodLock :: bool
  bmethod :: Method

record NativeStackFrame =
  nmethod :: Method
  args :: "val list"

record InternalStackFrame =
  isException :: bool
  val :: "val option"
  cb :: nat

datatype IStackFrame =
  Bytecode BytecodeStackFrame | Native NativeStackFrame | Internal InternalStackFrame

fun frameType :: "IStackFrame \<Rightarrow> StackFrameType" where
  "frameType (Bytecode f) = BYTECODE"
| "frameType (Native f) = NATIVE"
| "frameType (Internal f) = INTERNAL"

fun frameMethod :: "IStackFrame \<Rightarrow> Method option" where
  "frameMethod (Bytecode f) = Some (bmethod f)"
| "frameMethod (Native f) = Some (nmethod f)"
| "frameMethod (Internal f) = None"

record java_lang_Thread =
  ref :: nat
  threadStatus :: JVMTIThreadState
  daemon :: int

text \<open>The call stack is kept with the top frame first (the source's array keeps it last).\<close>

record JVMThread =
  status :: ThreadStatus
  stack :: "IStackFrame list"
  interrupted :: bool
  immortal :: bool
  monitor :: "Monitor option"
  jvmThreadObj :: java_lang_Thread

text \<open>
  Calls that leave \<^verbatim>\<open>threading.ts\<close>: an entry of the opcode table, a native function,
  the callback of an internal frame, monitors, the class loader, the Java thread object,
  and the JVM. The model appends each such call to a log.
\<close>

datatype extcall =
  OpcodeDispatch tid OpCode
  | NativeCall tid string
  | InternalCallback tid nat bool "val option"
  | MethodLockEnter tid string
  | MethodLockExit tid string
  | ResolveClasses tid nat "string list"
  | DispatchUncaughtException tid java_lang_Throwable
  | MonitorEnter tid
  | MonitorNotifyAll tid
  | MonitorExit tid
  | SystemExit tid
  | EmptyCallback

text \<open>A callback handed to \<^verbatim>\<open>setImmediate\<close>, run on a later tick of the host.\<close>

datatype deferred = ScheduleNextThreadTick

text \<open>
  The thread pool with the thread objects it refers to (\<open>heap\<close>, by identity), the queue
  of deferred callbacks, the log of outgoing calls, and what the collaborators answer:
  \<open>jvmIsShutdown\<close> (\<^verbatim>\<open>jvm.isShutdown()\<close>), \<open>getResolvedClass\<close> (per loader),
  \<open>isCastable\<close>, \<open>monitorEnter\<close> (whether \<^verbatim>\<open>monitor.enter\<close> acquires at once) and
  \<open>validateReturnValue\<close> (the debug check of a return value against the declared
  return type).
\<close>

record world =
  heap :: "tid \<Rightarrow> JVMThread"
  threads :: "tid list"
  runningThread :: "tid option"
  runningThreadIndex :: int
  parkCounts :: "nat \<rightharpoonup> int"
  immediates :: "deferred list"
  calls :: "extcall list"
  jvmIsShutdown :: bool
  getResolvedClass :: "nat \<Rightarrow> string \<Rightarrow> ClassData option"
  isCastable :: "ClassData \<Rightarrow> ClassData \<Rightarrow> bool"
  monitorEnter :: "tid \<Rightarrow> bool"
  validateReturnValue :: "Method \<Rightarrow> val option \<Rightarrow> val option \<Rightarrow> bool"

text \<open>A call either returns with the new state, or throws, leaving the state it reached.\<close>

type_synonym res = "(error \<times> world) + world"

definition finalWorld :: "res \<Rightarrow> world" where
  "finalWorld r = (case r of Inl (e, w) \<Rightarrow> w | Inr w \<Rightarrow> w)"

definition updThread :: "tid \<Rightarrow> (JVMThread \<Rightarrow> JVMThread) \<Rightarrow> world \<Rightarrow> world" where
  "updThread t f w = w\<lparr>heap := (heap w)(t := f (heap w t))\<rparr>"

definition logCall :: "extcall \<Rightarrow> world \<Rightarrow> world" where
  "logCall c w = w\<lparr>calls := calls w @ [c]\<rparr>"

definition getStatus :: "world \<Rightarrow> tid \<Rightarrow> ThreadStatus" where
  "getStatus w t = status (heap w t)"

definition getRef :: "world \<Rightarrow> tid \<Rightarrow> nat" where
  "getRef w t = ref (jvmThreadObj (heap w t))"

definition setStack :: "tid \<Rightarrow> IStackFrame list \<Rightarrow> world \<Rightarrow> world" where
  "setStack t fs w = updThread t (\<lambda>th. th\<lparr>stack := fs\<rparr>) w"

text \<open>\<^verbatim>\<open>framePop\<close> is \<^verbatim>\<open>this.stack.pop()\<close>, which leaves an empty array empty.\<close>

definition framePop :: "tid \<Rightarrow> world \<Rightarrow> world" where
  "framePop t w = setStack t (tl (stack (heap w t))) w"

section \<open>JVMThread.rawSetStatus and the transition table\<close>

fun jvmtiOf :: "ThreadStatus \<Rightarrow> JVMTIThreadState" where
  "jvmtiOf NEW = ALIVE"
| "jvmtiOf RUNNING = JVMTI_RUNNABLE"
| "jvmtiOf RUNNABLE = JVMTI_RUNNABLE"
| "jvmtiOf BLOCKED = BLOCKED_ON_MONITOR_ENTER"
| "jvmtiOf UNINTERRUPTABLY_BLOCKED = BLOCKED_ON_MONITOR_ENTER"
| "jvmtiOf WAITING = WAITING_INDEFINITELY"
| "jvmtiOf ASYNC_WAITING = WAITING_INDEFINITELY"
| "jvmtiOf PARKED = WAITING_INDEFINITELY"
| "jvmtiOf TIMED_WAITING = WAITING_WITH_TIMEOUT"
| "jvmtiOf TERMINATED = JVMTI_TERMINATED"

definition rawSetStatus :: "tid \<Rightarrow> ThreadStatus \<Rightarrow> world \<Rightarrow> world" where
  "rawSetStatus t newStatus w =
     updThread t (\<lambda>th. th\<lparr>status := newStatus,
        jvmThreadObj := (jvmThreadObj th)\<lparr>threadStatus := jvmtiOf newStatus\<rparr>\<rparr>) w"

fun validTransitions :: "ThreadStatus \<Rightarrow> ThreadStatus list" where
  "validTransitions NEW = [RUNNABLE, ASYNC_WAITING, TERMINATED]"
| "validTransitions ASYNC_WAITING = [RUNNABLE, TERMINATED]"
| "validTransitions BLOCKED = [RUNNABLE]"
| "validTransitions PARKED = [RUNNABLE]"
| "validTransitions RUNNABLE = [RUNNING, ASYNC_WAITING]"
| "validTransitions RUNNING =
     [RUNNABLE, ASYNC_WAITING, TERMINATED, BLOCKED, WAITING, TIMED_WAITING, PARKED]"
| "validTransitions TERMINATED = [NEW, RUNNABLE, ASYNC_WAITING]"
| "validTransitions TIMED_WAITING = [RUNNABLE, UNINTERRUPTABLY_BLOCKED]"
| "validTransitions UNINTERRUPTABLY_BLOCKED = [RUNNABLE]"
| "validTransitions WAITING = [RUNNABLE, UNINTERRUPTABLY_BLOCKED]"

definition validateThreadTransition :: "ThreadStatus \<Rightarrow> ThreadStatus \<Rightarrow> bool" where
  "validateThreadTransition oldStatus newStatus =
     (newStatus \<in> set (validTransitions oldStatus))"

section \<open>ThreadPool: scheduling\<close>

fun indexOf :: "'a list \<Rightarrow> 'a \<Rightarrow> int" where
  "indexOf [] x = -1"
| "indexOf (y # ys) x =
     (if y = x then 0 else (let i = indexOf ys x in if i < 0 then -1 else i + 1))"

definition addThread :: "tid \<Rightarrow> world \<Rightarrow> world" where
  "addThread t w =
     (if indexOf (threads w) t = -1 then w\<lparr>threads := threads w @ [t]\<rparr> else w)"

definition resurrectThread :: "tid \<Rightarrow> world \<Rightarrow> world" where
  "resurrectThread t w = addThread t w"

text \<open>
  \<^verbatim>\<open>scheduleNextThread\<close> only hands its body to \<^verbatim>\<open>setImmediate\<close>; the body is
  \<open>scheduleNextThreadTick\<close> below.
\<close>

definition scheduleNextThread :: "world \<Rightarrow> world" where
  "scheduleNextThread w = w\<lparr>immediates := immediates w @ [ScheduleNextThreadTick]\<rparr>"

definition threadRunnable :: "tid \<Rightarrow> world \<Rightarrow> world" where
  "threadRunnable t w = (if runningThread w = None then scheduleNextThread w else w)"

definition threadSuspended :: "tid \<Rightarrow> world \<Rightarrow> world" where
  "threadSuspended t w =
     (if runningThread w = Some t then scheduleNextThread (w\<lparr>runningThread := None\<rparr>) else w)"

definition anySchedulableThreads :: "world \<Rightarrow> bool" where
  "anySchedulableThreads w =
     list_ex (\<lambda>u. daemon (jvmThreadObj (heap w u)) = 0
                \<and> getStatus w u \<noteq> NEW \<and> getStatus w u \<noteq> TERMINATED) (threads w)"

definition threadTerminated :: "tid \<Rightarrow> world \<Rightarrow> res" where
  "threadTerminated t w =
     (if indexOf (threads w) t < 0 then Inl (AssertionError, w)
      else
        let w1 = w\<lparr>threads := remove1 t (threads w)\<rparr> in
        if runningThread w1 = Some t then
          let w2 = w1\<lparr>runningThread := None,
                      runningThreadIndex := runningThreadIndex w1 - 1\<rparr> in
          if anySchedulableThreads w2 then Inr (scheduleNextThread w2)
          else if \<not> jvmIsShutdown w2 then Inr (logCall (SystemExit t) w2)
          else Inr (logCall EmptyCallback w2)
        else
          Inr (w1\<lparr>runningThreadIndex :=
                 (case runningThread w1 of None \<Rightarrow> -1
                  | Some r \<Rightarrow> indexOf (threads w1) r)\<rparr>))"

section \<open>Frames: scheduleResume\<close>

definition BytecodeStackFrame_scheduleResume ::
  "BytecodeStackFrame \<Rightarrow> val option \<Rightarrow> val option \<Rightarrow> error + BytecodeStackFrame" where
  "BytecodeStackFrame_scheduleResume f rv rv2 =
     (if length (code (bmethod f)) \<le> pc f then Inl RangeError
      else
        let prevOp = code (bmethod f) ! pc f in
        case (case prevOp of
                INVOKEINTERFACE \<Rightarrow> Inr (f\<lparr>pc := pc f + 5\<rparr>)
              | INVOKEINTERFACE_FAST \<Rightarrow> Inr (f\<lparr>pc := pc f + 5\<rparr>)
              | INVOKESPECIAL \<Rightarrow> Inr (f\<lparr>pc := pc f + 3\<rparr>)
              | INVOKESTATIC \<Rightarrow> Inr (f\<lparr>pc := pc f + 3\<rparr>)
              | INVOKEVIRTUAL \<Rightarrow> Inr (f\<lparr>pc := pc f + 3\<rparr>)
              | INVOKESTATIC_FAST \<Rightarrow> Inr (f\<lparr>pc := pc f + 3\<rparr>)
              | INVOKENONVIRTUAL_FAST \<Rightarrow> Inr (f\<lparr>pc := pc f + 3\<rparr>)
              | INVOKEVIRTUAL_FAST \<Rightarrow> Inr (f\<lparr>pc := pc f + 3\<rparr>)
              | INVOKEHANDLE \<Rightarrow> Inr (f\<lparr>pc := pc f + 3\<rparr>)
              | INVOKEBASIC \<Rightarrow> Inr (f\<lparr>pc := pc f + 3\<rparr>)
              | LINKTOSPECIAL \<Rightarrow> Inr (f\<lparr>pc := pc f + 3\<rparr>)
              | LINKTOVIRTUAL \<Rightarrow> Inr (f\<lparr>pc := pc f + 3\<rparr>)
              | INVOKEDYNAMIC \<Rightarrow> Inr (f\<lparr>pc := pc f + 3\<rparr>)
              | INVOKEDYNAMIC_FAST \<Rightarrow> Inr (f\<lparr>pc := pc f + 3\<rparr>)
              | OTHER_OPCODE n \<Rightarrow> Inl AssertionError) of
          Inl e \<Rightarrow> Inl e
        | Inr f1 \<Rightarrow>
            let f2 = (case rv of None \<Rightarrow> f1 | Some v \<Rightarrow> f1\<lparr>opstack := opstack f1 @ [v]\<rparr>);
                f3 = (case rv2 of None \<Rightarrow> f2 | Some v \<Rightarrow> f2\<lparr>opstack := opstack f2 @ [v]\<rparr>)
            in Inr f3)"

fun scheduleResume :: "IStackFrame \<Rightarrow> val option \<Rightarrow> val option \<Rightarrow> error + IStackFrame" where
  "scheduleResume (Bytecode f) rv rv2 =
     (case BytecodeStackFrame_scheduleResume f rv rv2 of
        Inl e \<Rightarrow> Inl e | Inr f' \<Rightarrow> Inr (Bytecode f'))"
| "scheduleResume (Native f) rv rv2 = Inr (Native f)"
| "scheduleResume (Internal f) rv rv2 = Inr (Internal (f\<lparr>isException := False, val := rv\<rparr>))"

section \<open>JVMThread: exit, run, asyncReturn, setStatus\<close>

text \<open>
  \<^verbatim>\<open>exit\<close>: the thread reverts to \<open>ASYNC_WAITING\<close>, asks for the monitor of its Java
  object, and runs \<open>phase2\<close> at once when the monitor is acquired at once (otherwise the
  monitor keeps \<open>phase2\<close> as its callback).
\<close>

definition phase2 :: "tid \<Rightarrow> world \<Rightarrow> res" where
  "phase2 t w =
     threadTerminated t
       (rawSetStatus t TERMINATED (logCall (MonitorExit t) (logCall (MonitorNotifyAll t) w)))"

definition exit :: "tid \<Rightarrow> world \<Rightarrow> res" where
  "exit t w =
     (let w1 = logCall (MonitorEnter t) (rawSetStatus t ASYNC_WAITING w) in
      if monitorEnter w1 t then phase2 t w1 else Inr w1)"

text \<open>
  The \<^verbatim>\<open>run\<close> methods of a bytecode frame and of a native frame. The frame \<open>f\<close> is the
  top of the thread's stack, above the frames \<open>below\<close>. A bytecode frame of a synchronized
  method that does not hold its lock asks the method's monitor for it; otherwise it clears
  \<open>returnToThreadLoop\<close>, reads the opcode at \<open>pc\<close> and calls that opcode's entry of the
  opcode table. A native frame calls its native function. The monitor, the opcode table
  and the native function are outside \<^verbatim>\<open>threading.ts\<close>, and everything the frame does
  afterwards depends on what they did: the two functions end at that call, which they log.
\<close>

definition BytecodeStackFrame_run ::
  "tid \<Rightarrow> BytecodeStackFrame \<Rightarrow> IStackFrame list \<Rightarrow> world \<Rightarrow> res" where
  "BytecodeStackFrame_run t f below w =
     (if isSynchronized (bmethod f) \<and> \<not> lockedMethodLock f
      then Inr (logCall (MethodLockEnter t (fullSignature (bmethod f))) w)
      else
        let w1 = setStack t (Bytecode (f\<lparr>returnToThreadLoop := False\<rparr>) # below) w in
        if length (code (bmethod f)) \<le> pc f then Inl (RangeError, w1)
        else Inr (logCall (OpcodeDispatch t (code (bmethod f) ! pc f)) w1))"

definition NativeStackFrame_run :: "tid \<Rightarrow> NativeStackFrame \<Rightarrow> world \<Rightarrow> res" where
  "NativeStackFrame_run t f w = Inr (logCall (NativeCall t (fullSignature (nmethod f))) w)"

definition returnValueOk :: "world \<Rightarrow> IStackFrame \<Rightarrow> val option \<Rightarrow> val option \<Rightarrow> bool" where
  "returnValueOk w frame rv rv2 =
     (case frameMethod frame of None \<Rightarrow> True
      | Some m \<Rightarrow> validateReturnValue w m rv rv2)"

definition isBoolean :: "val option \<Rightarrow> bool" where
  "isBoolean rv = (case rv of Some (BoolV b) \<Rightarrow> True | _ \<Rightarrow> False)"

text \<open>
  The cases \<open>BLOCKED\<close>, \<open>UNINTERRUPTABLY_BLOCKED\<close>, \<open>WAITING\<close> and \<open>TIMED_WAITING\<close> of the
  switch that ends \<^verbatim>\<open>setStatus\<close>: the monitor must be given, is recorded, and control
  falls through to the default, \<^verbatim>\<open>threadSuspended\<close>.
\<close>

definition suspendOnMonitor :: "tid \<Rightarrow> Monitor option \<Rightarrow> world \<Rightarrow> res" where
  "suspendOnMonitor t mon w =
     (case mon of
        None \<Rightarrow> Inl (AssertionError, w)
      | Some m \<Rightarrow> Inr (threadSuspended t (updThread t (\<lambda>th. th\<lparr>monitor := Some m\<rparr>) w)))"

text \<open>
  \<^verbatim>\<open>setStatus\<close>, \<^verbatim>\<open>asyncReturn\<close>, the thread's execution loop \<^verbatim>\<open>run\<close> and the
  \<^verbatim>\<open>run\<close> of an internal frame call each other. \<^verbatim>\<open>setStatus\<close> ends with a switch on
  the status the thread then has; on \<open>RUNNING\<close> it calls \<^verbatim>\<open>run\<close>.

  \<^verbatim>\<open>run\<close>: while the thread is \<open>RUNNING\<close> and has a frame, the loop runs the top frame;
  after the loop, a thread without frames is set to \<open>TERMINATED\<close>. The \<^verbatim>\<open>run\<close> of a frame
  reaches code outside \<^verbatim>\<open>threading.ts\<close> (the opcode table, a native function, a
  monitor, the frame's callback). That code drives the thread: it calls back into
  \<^verbatim>\<open>setStatus\<close>, \<^verbatim>\<open>asyncReturn\<close> and \<^verbatim>\<open>throwException\<close>, and whether the loop goes
  on, and on which frame, is decided by what it did. So the model follows the loop up to
  the first call that leaves \<^verbatim>\<open>threading.ts\<close>, logs that call, and ends there; the
  resulting state is the one in which the outside code is entered, and nothing is
  claimed about the loop beyond that point. The path on which the loop body never runs
  (a thread without frames) is modelled to its end. The yield after
  \<^verbatim>\<open>maxMethodResumes\<close> frame runs (a counter adapted from wall-clock measurements)
  comes after the first frame run and is not part of the model.

  An internal frame pops itself, sets the thread to \<open>ASYNC_WAITING\<close> and calls its
  callback.
\<close>

function setStatus :: "tid \<Rightarrow> ThreadStatus \<Rightarrow> Monitor option \<Rightarrow> world \<Rightarrow> res"
  and asyncReturn :: "tid \<Rightarrow> val option \<Rightarrow> val option \<Rightarrow> world \<Rightarrow> res"
  and run :: "tid \<Rightarrow> world \<Rightarrow> res"
  and InternalStackFrame_run :: "tid \<Rightarrow> InternalStackFrame \<Rightarrow> world \<Rightarrow> res" where
  "setStatus t newStatus mon w =
     (if getStatus w t \<noteq> newStatus \<and> \<not> (getStatus w t = RUNNING \<and> newStatus = RUNNABLE) then
        let oldStatus = getStatus w t in
        if immortal (heap w t) \<and> newStatus = TERMINATED then Inr w
        else if \<not> validateThreadTransition oldStatus newStatus then Inl (AssertionError, w)
        else
          let w1 = updThread t (\<lambda>th. th\<lparr>monitor := None\<rparr>) (rawSetStatus t newStatus w) in
          case (if oldStatus = TERMINATED then Inr (resurrectThread t w1)
                else if oldStatus = PARKED then asyncReturn t None None w1
                else Inr w1) of
            Inl x \<Rightarrow> Inl x
          | Inr w2 \<Rightarrow>
              (case getStatus w2 t of
                 RUNNABLE \<Rightarrow> Inr (threadRunnable t w2)
               | RUNNING \<Rightarrow> run t w2
               | TERMINATED \<Rightarrow> exit t w2
               | BLOCKED \<Rightarrow> suspendOnMonitor t mon w2
               | UNINTERRUPTABLY_BLOCKED \<Rightarrow> suspendOnMonitor t mon w2
               | WAITING \<Rightarrow> suspendOnMonitor t mon w2
               | TIMED_WAITING \<Rightarrow> suspendOnMonitor t mon w2
               | NEW \<Rightarrow> Inr (threadSuspended t w2)
               | ASYNC_WAITING \<Rightarrow> Inr (threadSuspended t w2)
               | PARKED \<Rightarrow> Inr (threadSuspended t w2))
      else Inr w)"
| "asyncReturn t rv rv2 w =
     (if getStatus w t \<noteq> RUNNING \<and> getStatus w t \<noteq> RUNNABLE \<and> getStatus w t \<noteq> ASYNC_WAITING
      then Inl (AssertionError, w)
      else if isBoolean rv \<or> \<not> (rv2 = None \<or> rv2 = Some NullV) then Inl (AssertionError, w)
      else
        case stack (heap w t) of
          [] \<Rightarrow> Inl (TypeError, w)
        | frame # rest \<Rightarrow>
            let w1 = updThread t (\<lambda>th. th\<lparr>stack := rest\<rparr>) w in
            if \<not> returnValueOk w1 frame rv rv2 then Inl (AssertionError, w1)
            else
              (case rest of
                 [] \<Rightarrow> setStatus t RUNNABLE None w1
               | topFrame # below \<Rightarrow>
                   (case scheduleResume topFrame rv rv2 of
                      Inl e \<Rightarrow> Inl (e, w1)
                    | Inr topFrame' \<Rightarrow>
                        setStatus t RUNNABLE None
                          (updThread t (\<lambda>th. th\<lparr>stack := topFrame' # below\<rparr>) w1))))"
| "run t w =
     (if getStatus w t = RUNNING \<and> stack (heap w t) \<noteq> [] then
        (case stack (heap w t) of
           [] \<Rightarrow> Inr w
         | topFrame # below \<Rightarrow>
             (case topFrame of
                Bytecode f \<Rightarrow> BytecodeStackFrame_run t f below w
              | Native f \<Rightarrow> NativeStackFrame_run t f w
              | Internal f \<Rightarrow> InternalStackFrame_run t f w))
      else if stack (heap w t) = [] then setStatus t TERMINATED None w
      else Inr w)"
| "InternalStackFrame_run t f w =
     (case setStatus t ASYNC_WAITING None (framePop t w) of
        Inl x \<Rightarrow> Inl x
      | Inr w1 \<Rightarrow> Inr (logCall (InternalCallback t (cb f) (isException f) (val f)) w1))"
  by pat_completeness auto
termination
  by (relation "measure (\<lambda>x. case x of
         Inl (Inl (t, newStatus, mon, w)) \<Rightarrow>
           3 * (if getStatus w t = PARKED then 2 else if getStatus w t = RUNNING then 0 else 1)
       | Inl (Inr (t, rv, rv2, w)) \<Rightarrow>
           3 * (if getStatus w t = PARKED then 2 else if getStatus w t = RUNNING then 0 else 1) + 1
       | Inr (Inl (t, w)) \<Rightarrow>
           3 * (if getStatus w t = PARKED then 2 else if getStatus w t = RUNNING then 0 else 1) + 2
       | Inr (Inr (t, f, w)) \<Rightarrow>
           3 * (if getStatus w t = PARKED then 2 else if getStatus w t = RUNNING then 0 else 1) + 1)")
     (auto simp: getStatus_def updThread_def rawSetStatus_def setStack_def framePop_def
           split: if_splits)

text \<open>The switch that ends \<^verbatim>\<open>setStatus\<close>, on the status the thread then has.\<close>

definition postTransition :: "tid \<Rightarrow> Monitor option \<Rightarrow> world \<Rightarrow> res" where
  "postTransition t mon w =
     (case getStatus w t of
        RUNNABLE \<Rightarrow> Inr (threadRunnable t w)
      | RUNNING \<Rightarrow> run t w
      | TERMINATED \<Rightarrow> exit t w
      | BLOCKED \<Rightarrow> suspendOnMonitor t mon w
      | UNINTERRUPTABLY_BLOCKED \<Rightarrow> suspendOnMonitor t mon w
      | WAITING \<Rightarrow> suspendOnMonitor t mon w
      | TIMED_WAITING \<Rightarrow> suspendOnMonitor t mon w
      | NEW \<Rightarrow> Inr (threadSuspended t w)
      | ASYNC_WAITING \<Rightarrow> Inr (threadSuspended t w)
      | PARKED \<Rightarrow> Inr (threadSuspended t w))"

section \<open>ThreadPool: the scheduler tick, park and unpark\<close>

text \<open>JavaScript's \<^verbatim>\<open>%\<close>: the remainder takes the sign of the dividend.\<close>

definition jsRem :: "int \<Rightarrow> int \<Rightarrow> int" where
  "jsRem a b = sgn a * (\<bar>a\<bar> mod \<bar>b\<bar>)"

text \<open>
  The loop of the deferred body of \<^verbatim>\<open>scheduleNextThread\<close>, from iteration \<open>i\<close>. An
  index outside the array reads \<^verbatim>\<open>undefined\<close>, and \<^verbatim>\<open>getStatus\<close> on it throws.
\<close>

function scanThreads :: "nat \<Rightarrow> world \<Rightarrow> res" where
  "scanThreads i w =
     (if i < length (threads w) then
        let iFixed = jsRem (runningThreadIndex w + 1 + int i) (int (length (threads w))) in
        if iFixed < 0 \<or> int (length (threads w)) \<le> iFixed then Inl (TypeError, w)
        else
          let thread = threads w ! nat iFixed in
          if getStatus w thread = RUNNABLE then
            setStatus thread RUNNING None
              (w\<lparr>runningThread := Some thread, runningThreadIndex := iFixed\<rparr>)
          else scanThreads (i + 1) w
      else Inr w)"
  by pat_completeness auto
termination
  by (relation "measure (\<lambda>(i, w). length (threads w) - i)") auto

definition scheduleNextThreadTick :: "world \<Rightarrow> res" where
  "scheduleNextThreadTick w = (if runningThread w = None then scanThreads 0 w else Inr w)"

definition parkCount :: "world \<Rightarrow> tid \<Rightarrow> int" where
  "parkCount w t = (case parkCounts w (getRef w t) of None \<Rightarrow> 0 | Some c \<Rightarrow> c)"

definition setParkCount :: "tid \<Rightarrow> int \<Rightarrow> world \<Rightarrow> world" where
  "setParkCount t c w = w\<lparr>parkCounts := (parkCounts w)(getRef w t \<mapsto> c)\<rparr>"

definition park :: "tid \<Rightarrow> world \<Rightarrow> res" where
  "park t w =
     (let c = parkCount w t + 1; w1 = setParkCount t c w in
      if c > 0 then setStatus t PARKED None w1 else Inr w1)"

definition unpark :: "tid \<Rightarrow> world \<Rightarrow> res" where
  "unpark t w =
     (let c = parkCount w t - 1; w1 = setParkCount t c w in
      if c \<le> 0 then setStatus t RUNNABLE None w1 else Inr w1)"

definition completelyUnpark :: "tid \<Rightarrow> world \<Rightarrow> res" where
  "completelyUnpark t w = setStatus t RUNNABLE None (setParkCount t 0 w)"

definition isParked :: "world \<Rightarrow> tid \<Rightarrow> bool" where
  "isParked w t = (case parkCounts w (getRef w t) of None \<Rightarrow> False | Some c \<Rightarrow> c > 0)"

text \<open>A finite sequence of \<^verbatim>\<open>park\<close> and \<^verbatim>\<open>unpark\<close> calls on one thread; a throw ends it.\<close>

datatype parkCall = Park | Unpark

fun parkCalls :: "tid \<Rightarrow> parkCall list \<Rightarrow> world \<Rightarrow> res" where
  "parkCalls t [] w = Inr w"
| "parkCalls t (c # cs) w =
     (case (case c of Park \<Rightarrow> park t w | Unpark \<Rightarrow> unpark t w) of
        Inl x \<Rightarrow> Inl x
      | Inr w' \<Rightarrow> parkCalls t cs w')"

fun signedCount :: "parkCall list \<Rightarrow> int" where
  "signedCount [] = 0"
| "signedCount (Park # cs) = 1 + signedCount cs"
| "signedCount (Unpark # cs) = signedCount cs - 1"

section \<open>Frames: scheduleException\<close>

datatype handlerSearch = Found ExceptionHandler | NeedsResolution | NotFound

text \<open>
  STEP 1 of \<^verbatim>\<open>BytecodeStackFrame.scheduleException\<close>: the loop over the exception
  table, which ends with a handler, with the asynchronous path, or at the table's end.
\<close>

fun findHandler ::
  "world \<Rightarrow> Method \<Rightarrow> ClassData \<Rightarrow> nat \<Rightarrow> ExceptionHandler list \<Rightarrow> handlerSearch" where
  "findHandler w m ecls p [] = NotFound"
| "findHandler w m ecls p (eh # ehs) =
     (if startPC eh \<le> p \<and> p < endPC eh then
        if catchType eh = ''<any>'' then Found eh
        else
          (case getResolvedClass w (loader m) (catchType eh) of
             Some resolvedCatchType \<Rightarrow>
               if isCastable w ecls resolvedCatchType then Found eh
               else findHandler w m ecls p ehs
           | None \<Rightarrow> NeedsResolution)
      else findHandler w m ecls p ehs)"

definition handlerClasses :: "Method \<Rightarrow> string list" where
  "handlerClasses m =
     map catchType (filter (\<lambda>h. catchType h \<noteq> ''<any>'') (exceptionHandlers m))"

definition BytecodeStackFrame_scheduleException ::
  "tid \<Rightarrow> java_lang_Throwable \<Rightarrow> BytecodeStackFrame \<Rightarrow> world
     \<Rightarrow> (error \<times> world) + (bool \<times> BytecodeStackFrame \<times> world)" where
  "BytecodeStackFrame_scheduleException t e f w =
     (case findHandler w (bmethod f) (getClass e) (pc f) (exceptionHandlers (bmethod f)) of
        NeedsResolution \<Rightarrow>
          (case setStatus t ASYNC_WAITING None w of
             Inl x \<Rightarrow> Inl x
           | Inr w1 \<Rightarrow>
               Inr (True, f,
                    logCall (ResolveClasses t (loader (bmethod f)) (handlerClasses (bmethod f))) w1))
      | Found handler \<Rightarrow> Inr (True, f\<lparr>opstack := [ObjV e], pc := handlerPC handler\<rparr>, w)
      | NotFound \<Rightarrow>
          Inr (False, f,
               if isSynchronized (bmethod f)
               then logCall (MethodLockExit t (fullSignature (bmethod f))) w else w))"

fun scheduleException ::
  "tid \<Rightarrow> java_lang_Throwable \<Rightarrow> IStackFrame \<Rightarrow> world
     \<Rightarrow> (error \<times> world) + (bool \<times> IStackFrame \<times> world)" where
  "scheduleException t e (Bytecode f) w =
     (case BytecodeStackFrame_scheduleException t e f w of
        Inl x \<Rightarrow> Inl x
      | Inr (b, f', w') \<Rightarrow> Inr (b, Bytecode f', w'))"
| "scheduleException t e (Native f) w = Inr (False, Native f, w)"
| "scheduleException t e (Internal f) w =
     Inr (True, Internal (f\<lparr>isException := True, val := Some (ObjV e)\<rparr>), w)"

section \<open>JVMThread.throwException\<close>

definition handleUncaughtException :: "tid \<Rightarrow> java_lang_Throwable \<Rightarrow> world \<Rightarrow> res" where
  "handleUncaughtException t e w = Inr (logCall (DispatchUncaughtException t e) w)"

text \<open>
  The unwinding loop of \<^verbatim>\<open>throwException\<close> over the frames \<open>fs\<close> of the thread's
  stack (top first): a frame that answers \<open>false\<close> is popped.
\<close>

fun unwind :: "tid \<Rightarrow> java_lang_Throwable \<Rightarrow> IStackFrame list \<Rightarrow> world \<Rightarrow> res" where
  "unwind t e [] w = Inr w"
| "unwind t e (f # fs) w =
     (case scheduleException t e f w of
        Inl x \<Rightarrow> Inl x
      | Inr (handled, f', w') \<Rightarrow>
          if handled then Inr (setStack t (f' # fs) w')
          else unwind t e fs (setStack t fs w'))"

definition throwException :: "tid \<Rightarrow> java_lang_Throwable \<Rightarrow> world \<Rightarrow> res" where
  "throwException t e w =
     (if getStatus w t \<noteq> RUNNING \<and> getStatus w t \<noteq> RUNNABLE \<and> getStatus w t \<noteq> ASYNC_WAITING
      then Inl (AssertionError, w)
      else
        case (case stack (heap w t) of
                [] \<Rightarrow> Inr w
              | f # fs \<Rightarrow>
                  (let fs1 = (if frameType f = INTERNAL then fs else f # fs) in
                   case setStatus t RUNNABLE None (setStack t fs1 w) of
                     Inl x \<Rightarrow> Inl x
                   | Inr w1 \<Rightarrow> unwind t e fs1 w1)) of
          Inl x \<Rightarrow> Inl x
        | Inr w2 \<Rightarrow>
            if stack (heap w2 t) = [] then handleUncaughtException t e w2 else Inr w2)"

section \<open>Example states\<close>

definition exMethod :: Method where
  "exMethod = \<lparr>fullSignature = ''Main.main()V'', isSynchronized = False,
     code = [OTHER_OPCODE 0, INVOKESTATIC, OTHER_OPCODE 0, OTHER_OPCODE 1, OTHER_OPCODE 2],
     exceptionHandlers = [], loader = 0\<rparr>"

definition exParkMethod :: Method where
  "exParkMethod = \<lparr>fullSignature = ''sun/misc/Unsafe.park(ZJ)V'', isSynchronized = False,
     code = [], exceptionHandlers = [], loader = 0\<rparr>"

definition exCaller :: IStackFrame where
  "exCaller = Bytecode \<lparr>pc = 1, locals = [], opstack = [], returnToThreadLoop = True,
     lockedMethodLock = False, bmethod = exMethod\<rparr>"

definition exThread :: "ThreadStatus \<Rightarrow> JVMThread" where
  "exThread s = \<lparr>status = s, stack = [Native \<lparr>nmethod = exParkMethod, args = []\<rparr>, exCaller],
     interrupted = False, immortal = False, monitor = None,
     jvmThreadObj = \<lparr>ref = 7, threadStatus = jvmtiOf s, daemon = 0\<rparr>\<rparr>"

definition exWorld :: "ThreadStatus \<Rightarrow> world" where
  "exWorld s = \<lparr>heap = (\<lambda>u. exThread s), threads = [0],
     runningThread = (if s = RUNNING then Some 0 else None),
     runningThreadIndex = (if s = RUNNING then 0 else -1),
     parkCounts = Map.empty, immediates = [], calls = [], jvmIsShutdown = False,
     getResolvedClass = (\<lambda>l n. None), isCastable = (\<lambda>c d. c = d),
     monitorEnter = (\<lambda>u. True), validateReturnValue = (\<lambda>m rv rv2. True)\<rparr>"

definition exImmortalWorld :: "ThreadStatus \<Rightarrow> world" where
  "exImmortalWorld s = updThread 0 (\<lambda>th. th\<lparr>immortal := True\<rparr>) (exWorld s)"

section \<open>Predicates used in the statements\<close>

text \<open>The Java-visible field agrees with the thread's status.\<close>

definition consistent :: "world \<Rightarrow> tid \<Rightarrow> bool" where
  "consistent w u = (threadStatus (jvmThreadObj (heap w u)) = jvmtiOf (getStatus w u))"

text \<open>
  What a call on thread \<open>t\<close> leaves alone: the park counts, every other thread object,
  the thread's reference and immortality, and the agreement of field and status.
\<close>

definition frameOK :: "tid \<Rightarrow> world \<Rightarrow> world \<Rightarrow> bool" where
  "frameOK t w w' =
     (parkCounts w' = parkCounts w
      \<and> (\<forall>u. u \<noteq> t \<longrightarrow> heap w' u = heap w u)
      \<and> ref (jvmThreadObj (heap w' t)) = ref (jvmThreadObj (heap w t))
      \<and> immortal (heap w' t) = immortal (heap w t)
      \<and> (consistent w t \<longrightarrow> consistent w' t))"

text \<open>The state right after \<^verbatim>\<open>setStatus\<close> has changed the status optimistically.\<close>

definition afterRaw :: "tid \<Rightarrow> ThreadStatus \<Rightarrow> world \<Rightarrow> world" where
  "afterRaw t s w = updThread t (\<lambda>th. th\<lparr>monitor := None\<rparr>) (rawSetStatus t s w)"

text \<open>What \<^verbatim>\<open>scheduleResume\<close> pushes: \<open>rv\<close>, then \<open>rv2\<close>, each when it is defined.\<close>

definition pushed :: "val option \<Rightarrow> val option \<Rightarrow> val list" where
  "pushed rv rv2 =
     (case rv of None \<Rightarrow> [] | Some v \<Rightarrow> [v]) @ (case rv2 of None \<Rightarrow> [] | Some v \<Rightarrow> [v])"

text \<open>The call returned (it did not throw).\<close>

definition returns :: "res \<Rightarrow> bool" where
  "returns r = (case r of Inl x \<Rightarrow> False | Inr w \<Rightarrow> True)"

definition exFrame :: "nat \<Rightarrow> BytecodeStackFrame" where
  "exFrame p = \<lparr>pc = p, locals = [], opstack = [NumV 1], returnToThreadLoop = True,
     lockedMethodLock = False,
     bmethod = \<lparr>fullSignature = ''Main.run()V'', isSynchronized = False,
       code = [INVOKEINTERFACE, OTHER_OPCODE 0, OTHER_OPCODE 1, OTHER_OPCODE 1, OTHER_OPCODE 0,
               INVOKEVIRTUAL, OTHER_OPCODE 0, OTHER_OPCODE 2, OTHER_OPCODE 177],
       exceptionHandlers = [], loader = 0\<rparr>\<rparr>"

definition exStrayWorld :: "ThreadStatus \<Rightarrow> world" where
  "exStrayWorld s = (exWorld s)\<lparr>parkCounts := [7 \<mapsto> - 2]\<rparr>"

text \<open>
  A table entry matches: \<open>pc\<close> lies in its range and its catch type is the universal
  marker or resolves to a class the exception's class is castable to. An entry needs
  resolution: \<open>pc\<close> lies in its range and its catch type is not resolved yet.
\<close>

definition handlerMatches :: "world \<Rightarrow> Method \<Rightarrow> ClassData \<Rightarrow> nat \<Rightarrow> ExceptionHandler \<Rightarrow> bool" where
  "handlerMatches w m ecls p eh =
     (startPC eh \<le> p \<and> p < endPC eh
      \<and> (catchType eh = ''<any>''
         \<or> (case getResolvedClass w (loader m) (catchType eh) of
               None \<Rightarrow> False | Some c \<Rightarrow> isCastable w ecls c)))"

definition needsResolution :: "world \<Rightarrow> Method \<Rightarrow> nat \<Rightarrow> ExceptionHandler \<Rightarrow> bool" where
  "needsResolution w m p eh =
     (startPC eh \<le> p \<and> p < endPC eh \<and> catchType eh \<noteq> ''<any>''
      \<and> getResolvedClass w (loader m) (catchType eh) = None)"

definition exHandlerMethod :: "bool \<Rightarrow> Method" where
  "exHandlerMethod sync = \<lparr>fullSignature = ''Main.work()V'', isSynchronized = sync,
     code = [OTHER_OPCODE 0],
     exceptionHandlers =
       [\<lparr>startPC = 0, endPC = 8, handlerPC = 25, catchType = ''<any>''\<rparr>,
        \<lparr>startPC = 8, endPC = 20, handlerPC = 28, catchType = ''Ljava/io/IOException;''\<rparr>,
        \<lparr>startPC = 8, endPC = 20, handlerPC = 30, catchType = ''Ljava/lang/Exception;''\<rparr>],
     loader = 0\<rparr>"

definition exHandlerFrame :: "bool \<Rightarrow> nat \<Rightarrow> BytecodeStackFrame" where
  "exHandlerFrame sync p = \<lparr>pc = p, locals = [], opstack = [NumV 3, NumV 4],
     returnToThreadLoop = True, lockedMethodLock = sync, bmethod = exHandlerMethod sync\<rparr>"

definition exNPE :: java_lang_Throwable where
  "exNPE = Throwable 99 ''Ljava/lang/NullPointerException;''"

text \<open>A loader that has resolved both catch types; the exception is castable to \<open>Exception\<close> only.\<close>

definition exResolvedWorld :: "ThreadStatus \<Rightarrow> world" where
  "exResolvedWorld s = (exWorld s)\<lparr>
     getResolvedClass := (\<lambda>l n. if n = ''Ljava/io/IOException;'' \<or> n = ''Ljava/lang/Exception;''
                                 then Some n else None),
     isCastable := (\<lambda>c d. c = d \<or> d = ''Ljava/lang/Exception;'' \<and> c = ''Ljava/lang/NullPointerException;'')\<rparr>"

text \<open>The index the scan visits at iteration \<open>k\<close>.\<close>

definition scanIndex :: "world \<Rightarrow> nat \<Rightarrow> nat" where
  "scanIndex w k = nat ((runningThreadIndex w + 1 + int k) mod int (length (threads w)))"

text \<open>A pool of threads \<open>0, 1, ...\<close> with the given statuses, none running.\<close>

definition exPool :: "ThreadStatus list \<Rightarrow> int \<Rightarrow> world" where
  "exPool sts idx = (exWorld NEW)\<lparr>
     heap := (\<lambda>u. (exThread (sts ! u))\<lparr>jvmThreadObj :=
                \<lparr>ref = u, threadStatus = jvmtiOf (sts ! u), daemon = 0\<rparr>\<rparr>),
     threads := [0..<length sts], runningThread := None, runningThreadIndex := idx\<rparr>"

text \<open>
  The frame answers \<open>false\<close> to \<open>scheduleException\<close>: a native frame always, an internal
  frame never, a bytecode frame when its table has no handler and nothing to resolve.
\<close>

fun declines :: "world \<Rightarrow> java_lang_Throwable \<Rightarrow> IStackFrame \<Rightarrow> bool" where
  "declines w e (Bytecode b) =
     (case findHandler w (bmethod b) (getClass e) (pc b) (exceptionHandlers (bmethod b)) of
        NotFound \<Rightarrow> True | _ \<Rightarrow> False)"
| "declines w e (Native n) = True"
| "declines w e (Internal i) = False"

text \<open>The frame waits for its catch types to be resolved.\<close>

fun awaitsResolution :: "world \<Rightarrow> java_lang_Throwable \<Rightarrow> IStackFrame \<Rightarrow> bool" where
  "awaitsResolution w e (Bytecode b) =
     (case findHandler w (bmethod b) (getClass e) (pc b) (exceptionHandlers (bmethod b)) of
        NeedsResolution \<Rightarrow> True | _ \<Rightarrow> False)"
| "awaitsResolution w e (Native n) = False"
| "awaitsResolution w e (Internal i) = False"

text \<open>The frame as it is once it has taken the exception.\<close>

fun acceptedFrame :: "world \<Rightarrow> java_lang_Throwable \<Rightarrow> IStackFrame \<Rightarrow> IStackFrame" where
  "acceptedFrame w e (Bytecode b) =
     (case findHandler w (bmethod b) (getClass e) (pc b) (exceptionHandlers (bmethod b)) of
        Found h \<Rightarrow> Bytecode (b\<lparr>opstack := [ObjV e], pc := handlerPC h\<rparr>)
      | _ \<Rightarrow> Bytecode b)"
| "acceptedFrame w e (Native n) = Native n"
| "acceptedFrame w e (Internal i) = Internal (i\<lparr>isException := True, val := Some (ObjV e)\<rparr>)"

definition isDispatch :: "extcall \<Rightarrow> bool" where
  "isDispatch c = (case c of DispatchUncaughtException t e \<Rightarrow> True | _ \<Rightarrow> False)"

text \<open>What the unwinding loop leaves alone between two frames.\<close>

definition unwindKeeps :: "tid \<Rightarrow> world \<Rightarrow> world \<Rightarrow> bool" where
  "unwindKeeps t w w' =
     (getResolvedClass w' = getResolvedClass w \<and> isCastable w' = isCastable w
      \<and> stack (heap w' t) = stack (heap w t)
      \<and> filter isDispatch (calls w') = filter isDispatch (calls w))"

text \<open>The stack and the status that unwinding over \<open>fs\<close> leaves.\<close>

definition unwoundStack :: "world \<Rightarrow> java_lang_Throwable \<Rightarrow> IStackFrame list \<Rightarrow> IStackFrame list" where
  "unwoundStack w e fs =
     (case dropWhile (declines w e) fs of [] \<Rightarrow> [] | g # rest \<Rightarrow> acceptedFrame w e g # rest)"

definition unwoundStatus :: "world \<Rightarrow> java_lang_Throwable \<Rightarrow> IStackFrame list \<Rightarrow> ThreadStatus \<Rightarrow> ThreadStatus" where
  "unwoundStatus w e fs s =
     (case dropWhile (declines w e) fs of
        [] \<Rightarrow> s
      | g # rest \<Rightarrow> if awaitsResolution w e g then ASYNC_WAITING else s)"

text \<open>Thread 0 with the given status and call stack, under the loader of \<open>exResolvedWorld\<close>.\<close>

definition exThrowWorld :: "ThreadStatus \<Rightarrow> IStackFrame list \<Rightarrow> world" where
  "exThrowWorld s stk = setStack 0 stk (exResolvedWorld s)"

definition exInternal :: IStackFrame where
  "exInternal = Internal \<lparr>isException = False, val = None, cb = 0\<rparr>"

definition exNative :: IStackFrame where
  "exNative = Native \<lparr>nmethod = exParkMethod, args = []\<rparr>"

text \<open>
  Resolution that keeps failing: each failure reaches the thread as an exception thrown
  on it by the class loader, and the loader resolves nothing new.
\<close>

fun failedResolutions :: "tid \<Rightarrow> java_lang_Throwable list \<Rightarrow> world \<Rightarrow> res" where
  "failedResolutions t [] w = Inr w"
| "failedResolutions t (e # es) w =
     (case throwException t e w of
        Inl x \<Rightarrow> Inl x
      | Inr w' \<Rightarrow> failedResolutions t es w')"

definition isResolveRequest :: "extcall \<Rightarrow> bool" where
  "isResolveRequest c = (case c of ResolveClasses t l cs \<Rightarrow> True | _ \<Rightarrow> False)"

definition resolveRequests :: "world \<Rightarrow> extcall list" where
  "resolveRequests w = filter isResolveRequest (calls w)"

text \<open>A frame inside a handler range whose catch type the loader cannot resolve.\<close>

definition exMissingFrame :: BytecodeStackFrame where
  "exMissingFrame = \<lparr>pc = 3, locals = [], opstack = [], returnToThreadLoop = True,
     lockedMethodLock = False,
     bmethod = \<lparr>fullSignature = ''Main.load()V'', isSynchronized = False,
       code = [OTHER_OPCODE 0],
       exceptionHandlers = [\<lparr>startPC = 0, endPC = 10, handlerPC = 12, catchType = ''LMissing;''\<rparr>],
       loader = 0\<rparr>\<rparr>"

definition exUnresolvedWorld :: world where
  "exUnresolvedWorld = setStack 0 [Bytecode exMissingFrame] (exWorld RUNNING)"

text \<open>
  The pool's bookkeeping: \<open>runningThreadIndex\<close> is at least -1, and a running thread is
  in the list with a non-negative index.
\<close>

definition poolInv :: "world \<Rightarrow> bool" where
  "poolInv w =
     (- 1 \<le> runningThreadIndex w
      \<and> (case runningThread w of
           None \<Rightarrow> True
         | Some r \<Rightarrow> 0 \<le> runningThreadIndex w \<and> r \<in> set (threads w)))"

section \<open>Basic facts\<close>

declare setStatus.simps [simp del] asyncReturn.simps [simp del] run.simps [simp del]
  InternalStackFrame_run.simps [simp del] scanThreads.simps [simp del]

lemma finalWorld_simps [simp]:
  "finalWorld (Inr w) = w" "finalWorld (Inl (e, w)) = w"
  by (simp_all add: finalWorld_def)

lemma heap_basic [simp]:
  "heap (logCall c w) = heap w"
  "heap (scheduleNextThread w) = heap w"
  "heap (threadRunnable t w) = heap w"
  "heap (threadSuspended t w) = heap w"
  "heap (addThread t w) = heap w"
  "heap (resurrectThread t w) = heap w"
  "heap (setParkCount t n w) = heap w"
  by (simp_all add: logCall_def scheduleNextThread_def threadRunnable_def threadSuspended_def
        addThread_def resurrectThread_def setParkCount_def)

lemma heap_updThread [simp]: "heap (updThread t f w) = (heap w)(t := f (heap w t))"
  by (simp add: updThread_def)

lemma heap_threadTerminated [simp]: "heap (finalWorld (threadTerminated t w)) = heap w"
  by (simp add: threadTerminated_def Let_def logCall_def scheduleNextThread_def)

lemma heap_rawSetStatus:
  "heap (rawSetStatus t s w) = (heap w)(t := (heap w t)\<lparr>status := s,
        jvmThreadObj := (jvmThreadObj (heap w t))\<lparr>threadStatus := jvmtiOf s\<rparr>\<rparr>)"
  by (simp add: rawSetStatus_def)

lemma heap_exit:
  "heap (finalWorld (exit t w)) = heap (rawSetStatus t ASYNC_WAITING w)
   \<or> heap (finalWorld (exit t w)) = heap (rawSetStatus t TERMINATED w)"
  by (auto simp: exit_def phase2_def Let_def heap_rawSetStatus)

lemma consistent_heap: "heap w' u = heap w u \<Longrightarrow> consistent w' u = consistent w u"
  by (simp add: consistent_def getStatus_def)

lemma consistent_rawSetStatus: "consistent (rawSetStatus t s w) u = (u = t \<or> consistent w u)"
  by (auto simp: consistent_def getStatus_def heap_rawSetStatus)

lemma parkCounts_basic [simp]:
  "parkCounts (logCall c w) = parkCounts w"
  "parkCounts (scheduleNextThread w) = parkCounts w"
  "parkCounts (threadRunnable t w) = parkCounts w"
  "parkCounts (threadSuspended t w) = parkCounts w"
  "parkCounts (addThread t w) = parkCounts w"
  "parkCounts (resurrectThread t w) = parkCounts w"
  "parkCounts (updThread t f w) = parkCounts w"
  "parkCounts (rawSetStatus t s w) = parkCounts w"
  "parkCounts (finalWorld (threadTerminated t w)) = parkCounts w"
  by (simp_all add: logCall_def scheduleNextThread_def threadRunnable_def threadSuspended_def
        addThread_def resurrectThread_def updThread_def rawSetStatus_def
        threadTerminated_def Let_def)

lemma parkCounts_exit [simp]: "parkCounts (finalWorld (exit t w)) = parkCounts w"
  by (simp add: exit_def phase2_def Let_def)

lemma frameOK_refl [simp]: "frameOK t w w"
  by (simp add: frameOK_def)

lemma frameOK_trans: "frameOK t w w1 \<Longrightarrow> frameOK t w1 w2 \<Longrightarrow> frameOK t w w2"
  by (simp add: frameOK_def)

lemma frameOK_heap_eq:
  "heap w' = heap w \<Longrightarrow> parkCounts w' = parkCounts w \<Longrightarrow> frameOK t w w'"
  by (simp add: frameOK_def consistent_def getStatus_def)

lemma frameOK_rawSetStatus: "frameOK t w (rawSetStatus t s w)"
  by (simp add: frameOK_def consistent_rawSetStatus heap_rawSetStatus)

lemma frameOK_updThread_monitor: "frameOK t w (updThread t (\<lambda>th. th\<lparr>monitor := x\<rparr>) w)"
  by (simp add: frameOK_def consistent_def getStatus_def)

lemma frameOK_updThread_stack: "frameOK t w (updThread t (\<lambda>th. th\<lparr>stack := x\<rparr>) w)"
  by (simp add: frameOK_def consistent_def getStatus_def)

lemma frameOK_exit: "frameOK t w (finalWorld (exit t w))"
  using heap_exit [of t w]
  by (auto simp: frameOK_def consistent_def getStatus_def heap_rawSetStatus)


lemma setStatus_eq:
  "setStatus t newStatus mon w =
     (if getStatus w t \<noteq> newStatus \<and> \<not> (getStatus w t = RUNNING \<and> newStatus = RUNNABLE) then
        let oldStatus = getStatus w t in
        if immortal (heap w t) \<and> newStatus = TERMINATED then Inr w
        else if \<not> validateThreadTransition oldStatus newStatus then Inl (AssertionError, w)
        else
          let w1 = updThread t (\<lambda>th. th\<lparr>monitor := None\<rparr>) (rawSetStatus t newStatus w) in
          case (if oldStatus = TERMINATED then Inr (resurrectThread t w1)
                else if oldStatus = PARKED then asyncReturn t None None w1
                else Inr w1) of
            Inl x \<Rightarrow> Inl x
          | Inr w2 \<Rightarrow> postTransition t mon w2
      else Inr w)"
  unfolding postTransition_def by (rule setStatus.simps)

lemma frameOK_postTransition_idle:
  "getStatus w t \<noteq> RUNNING \<Longrightarrow> frameOK t w (finalWorld (postTransition t m w))"
proof -
  have susp: "\<And>v. frameOK t v (threadSuspended t v)"
    by (rule frameOK_heap_eq) simp_all
  have runn: "\<And>v. frameOK t v (threadRunnable t v)"
    by (rule frameOK_heap_eq) simp_all
  have mon: "\<And>x. frameOK t w (threadSuspended t (updThread t (\<lambda>th. th\<lparr>monitor := Some x\<rparr>) w))"
    by (rule frameOK_trans [OF frameOK_updThread_monitor susp])
  show "getStatus w t \<noteq> RUNNING \<Longrightarrow> ?thesis"
    by (cases "getStatus w t"; cases m;
        simp add: postTransition_def suspendOnMonitor_def susp runn mon frameOK_exit)
qed

lemma setStatus_unparked:
  "getStatus w t \<noteq> PARKED \<Longrightarrow>
   setStatus t s m w =
     (if getStatus w t \<noteq> s \<and> \<not> (getStatus w t = RUNNING \<and> s = RUNNABLE) then
        if immortal (heap w t) \<and> s = TERMINATED then Inr w
        else if \<not> validateThreadTransition (getStatus w t) s then Inl (AssertionError, w)
        else
          postTransition t m
            (let w1 = updThread t (\<lambda>th. th\<lparr>monitor := None\<rparr>) (rawSetStatus t s w) in
             if getStatus w t = TERMINATED then resurrectThread t w1 else w1)
      else Inr w)"
  by (simp add: setStatus_eq Let_def)

lemma setStatus_parked_other:
  "getStatus w t = PARKED \<Longrightarrow> s \<noteq> RUNNABLE \<Longrightarrow>
   setStatus t s m w =
     (if s = PARKED \<or> immortal (heap w t) \<and> s = TERMINATED then Inr w
      else Inl (AssertionError, w))"
  by (simp add: setStatus_eq Let_def validateThreadTransition_def)

lemma frameOK_pre:
  "frameOK t w (let w1 = updThread t (\<lambda>th. th\<lparr>monitor := None\<rparr>) (rawSetStatus t s w) in
             if b then resurrectThread t w1 else w1)"
proof -
  have f1: "frameOK t w (updThread t (\<lambda>th. th\<lparr>monitor := None\<rparr>) (rawSetStatus t s w))"
    by (rule frameOK_trans [OF frameOK_rawSetStatus frameOK_updThread_monitor])
  have f2: "\<And>v. frameOK t v (resurrectThread t v)"
    by (rule frameOK_heap_eq) simp_all
  show ?thesis
    using f1 frameOK_trans [OF f1 f2] by (simp add: Let_def)
qed

lemma getStatus_pre:
  "getStatus (let w1 = updThread t (\<lambda>th. th\<lparr>monitor := None\<rparr>) (rawSetStatus t s w) in
             if b then resurrectThread t w1 else w1) t = s"
  by (simp add: Let_def getStatus_def heap_rawSetStatus)

lemma frameOK_setStatus_idle:
  assumes "s \<noteq> RUNNING"
  shows "frameOK t w (finalWorld (setStatus t s m w))"
proof (cases "getStatus w t = PARKED \<and> s \<noteq> RUNNABLE")
  case True
  then show ?thesis by (simp add: setStatus_parked_other)
next
  case False
  show ?thesis
  proof (cases "getStatus w t = PARKED")
    case u: False
    have "\<And>b. frameOK t w (finalWorld (postTransition t m
          (let w1 = updThread t (\<lambda>th. th\<lparr>monitor := None\<rparr>) (rawSetStatus t s w) in
           if b then resurrectThread t w1 else w1)))"
      by (rule frameOK_trans [OF frameOK_pre frameOK_postTransition_idle])
         (simp add: getStatus_pre assms)
    then show ?thesis
      using u by (simp add: setStatus_unparked)
  next
    case p: True
    then have s: "s = RUNNABLE" using False by simp
    let ?w1 = "updThread t (\<lambda>th. th\<lparr>monitor := None\<rparr>) (rawSetStatus t RUNNABLE w)"
    have st: "getStatus ?w1 t = RUNNABLE"
      by (simp add: getStatus_def heap_rawSetStatus)
    have f1: "frameOK t w ?w1"
      by (rule frameOK_trans [OF frameOK_rawSetStatus frameOK_updThread_monitor])
    have ar: "asyncReturn t None None ?w1 =
        (case stack (heap ?w1 t) of
           [] \<Rightarrow> Inl (TypeError, ?w1)
         | frame # rest \<Rightarrow>
             let w1 = updThread t (\<lambda>th. th\<lparr>stack := rest\<rparr>) ?w1 in
             if \<not> returnValueOk w1 frame None None then Inl (AssertionError, w1)
             else (case rest of
                     [] \<Rightarrow> Inr w1
                   | topFrame # below \<Rightarrow>
                       (case scheduleResume topFrame None None of
                          Inl e \<Rightarrow> Inl (e, w1)
                        | Inr topFrame' \<Rightarrow>
                            Inr (updThread t (\<lambda>th. th\<lparr>stack := topFrame' # below\<rparr>) w1))))"
      apply (subst asyncReturn.simps)
      apply (simp add: st isBoolean_def Let_def setStatus_unparked getStatus_def
                  heap_rawSetStatus split: list.split sum.split)
      done
    have f2: "frameOK t ?w1 (finalWorld (asyncReturn t None None ?w1))
              \<and> getStatus (finalWorld (asyncReturn t None None ?w1)) t = RUNNABLE"
      unfolding ar
      by (simp add: Let_def frameOK_updThread_stack frameOK_trans [OF frameOK_updThread_stack frameOK_updThread_stack]
            getStatus_def heap_rawSetStatus split: list.split sum.split)
    have f3: "\<And>v. asyncReturn t None None ?w1 = Inr v \<Longrightarrow>
         frameOK t w (finalWorld (postTransition t m v))"
    proof -
      fix v assume e: "asyncReturn t None None ?w1 = Inr v"
      have a: "frameOK t ?w1 v" and b: "getStatus v t = RUNNABLE"
        using f2 by (simp_all add: e)
      have "frameOK t v (finalWorld (postTransition t m v))"
        by (rule frameOK_postTransition_idle) (simp add: b)
      then show "frameOK t w (finalWorld (postTransition t m v))"
        using frameOK_trans [OF f1 a] frameOK_trans by blast
    qed
    have f4: "\<And>e v. asyncReturn t None None ?w1 = Inl (e, v) \<Longrightarrow> frameOK t w v"
    proof -
      fix e v assume e: "asyncReturn t None None ?w1 = Inl (e, v)"
      have "frameOK t ?w1 v" using f2 by (simp add: e)
      then show "frameOK t w v" using f1 frameOK_trans by blast
    qed
    show ?thesis
      using p f3 f4 unfolding s
      by (simp add: setStatus_eq Let_def split: sum.split prod.split)
  qed
qed

lemma frameOK_setStack: "frameOK t w (setStack t fs w)"
  by (simp add: setStack_def frameOK_updThread_stack)

lemma frameOK_logCall: "frameOK t w v \<Longrightarrow> frameOK t w (logCall c v)"
  by (simp add: frameOK_def consistent_def getStatus_def)

lemma frameOK_frame_runs:
  "frameOK t w (finalWorld (BytecodeStackFrame_run t f below w))"
  "frameOK t w (finalWorld (NativeStackFrame_run t g w))"
  by (simp_all add: BytecodeStackFrame_run_def NativeStackFrame_run_def Let_def
        frameOK_logCall frameOK_setStack)

lemma frameOK_InternalStackFrame_run:
  "frameOK t w (finalWorld (InternalStackFrame_run t f w))"
proof -
  have a: "frameOK t w (finalWorld (setStatus t ASYNC_WAITING None (framePop t w)))"
    by (rule frameOK_trans [OF _ frameOK_setStatus_idle])
       (simp_all add: framePop_def frameOK_setStack)
  show ?thesis
    using a
    by (cases "setStatus t ASYNC_WAITING None (framePop t w)")
       (auto simp: InternalStackFrame_run.simps frameOK_logCall)
qed

lemma frameOK_run: "frameOK t w (finalWorld (run t w))"
  by (subst run.simps)
     (simp add: frameOK_frame_runs frameOK_InternalStackFrame_run frameOK_setStatus_idle
        split: list.split IStackFrame.split)

lemma frameOK_postTransition: "frameOK t w (finalWorld (postTransition t m w))"
proof (cases "getStatus w t = RUNNING")
  case True
  then show ?thesis by (simp add: postTransition_def frameOK_run)
next
  case False
  then show ?thesis by (rule frameOK_postTransition_idle)
qed

lemma frameOK_setStatus_unparked:
  "getStatus w t \<noteq> PARKED \<Longrightarrow> frameOK t w (finalWorld (setStatus t s m w))"
  using frameOK_trans [OF frameOK_pre frameOK_postTransition]
  by (simp add: setStatus_unparked)

lemma getStatus_updThread_stack [simp]:
  "getStatus (updThread t (\<lambda>th. th\<lparr>stack := x\<rparr>) w) u = getStatus w u"
  by (simp add: getStatus_def)

lemma updThread_stack_twice [simp]:
  "updThread t (\<lambda>th. th\<lparr>stack := y\<rparr>) (updThread t (\<lambda>th. th\<lparr>stack := x\<rparr>) w)
     = updThread t (\<lambda>th. th\<lparr>stack := y\<rparr>) w"
  by (simp add: updThread_def)

lemma frameOK_asyncReturn: "frameOK t w (finalWorld (asyncReturn t rv rv2 w))"
proof -
  have step: "\<And>x. getStatus w t \<noteq> PARKED \<Longrightarrow>
      frameOK t w (finalWorld (setStatus t RUNNABLE None (updThread t (\<lambda>th. th\<lparr>stack := x\<rparr>) w)))"
    by (rule frameOK_trans [OF frameOK_updThread_stack frameOK_setStatus_unparked]) simp
  show ?thesis
    apply (subst asyncReturn.simps)
    apply (simp add: Let_def frameOK_updThread_stack split: list.split sum.split)
    apply (intro conjI impI allI)
      apply (simp_all add: step)
    done
qed

lemma frameOK_setStatus: "frameOK t w (finalWorld (setStatus t s m w))"
proof (cases "getStatus w t = PARKED")
  case False
  then show ?thesis by (rule frameOK_setStatus_unparked)
next
  case True
  let ?w1 = "updThread t (\<lambda>th. th\<lparr>monitor := None\<rparr>) (rawSetStatus t s w)"
  have f1: "frameOK t w ?w1"
    by (rule frameOK_trans [OF frameOK_rawSetStatus frameOK_updThread_monitor])
  have f2: "frameOK t w (finalWorld (asyncReturn t None None ?w1))"
    by (rule frameOK_trans [OF f1 frameOK_asyncReturn])
  have f3: "\<And>v. asyncReturn t None None ?w1 = Inr v \<Longrightarrow>
       frameOK t w (finalWorld (postTransition t m v))"
    using f2 by (auto intro: frameOK_trans [OF _ frameOK_postTransition])
  have f4: "\<And>e v. asyncReturn t None None ?w1 = Inl (e, v) \<Longrightarrow> frameOK t w v"
    using f2 by auto
  show ?thesis
    using True f3 f4
    by (simp add: setStatus_eq Let_def split: sum.split prod.split)
qed

lemma consistent_afterRaw: "consistent (afterRaw t s w) t"
  by (simp add: afterRaw_def consistent_def getStatus_def heap_rawSetStatus)

lemma getStatus_afterRaw: "getStatus (afterRaw t s w) t = s"
  by (simp add: afterRaw_def getStatus_def heap_rawSetStatus)

lemma setStatus_performed_unparked:
  assumes "getStatus w t \<noteq> s" and "\<not> (getStatus w t = RUNNING \<and> s = RUNNABLE)"
    and "\<not> (immortal (heap w t) \<and> s = TERMINATED)"
    and "validateThreadTransition (getStatus w t) s"
    and "getStatus w t \<noteq> PARKED"
  shows "setStatus t s m w =
     postTransition t m (if getStatus w t = TERMINATED
        then resurrectThread t (afterRaw t s w) else afterRaw t s w)"
proof -
  have a: "(immortal (heap w t) \<and> s = TERMINATED) = False"
    using assms(3) by blast
  have b: "(getStatus w t = RUNNING \<and> s = RUNNABLE) = False"
    using assms(2) by blast
  show ?thesis
    using assms(1) assms(4) assms(5)
    by (simp add: setStatus_eq a b Let_def afterRaw_def)
qed

lemma setStatus_performed_parked_RUNNABLE:
  assumes "getStatus w t \<noteq> s"
    and "validateThreadTransition (getStatus w t) s"
    and "getStatus w t = PARKED"
  shows "s = RUNNABLE"
  using assms by (simp add: validateThreadTransition_def)

lemma setStatus_performed_parked:
  assumes "getStatus w t \<noteq> s"
    and "validateThreadTransition (getStatus w t) s"
    and "getStatus w t = PARKED"
  shows "setStatus t s m w =
     (case asyncReturn t None None (afterRaw t RUNNABLE w) of
        Inl x \<Rightarrow> Inl x | Inr w2 \<Rightarrow> postTransition t m w2)"
  unfolding setStatus_performed_parked_RUNNABLE [OF assms] using assms(3)
  by (simp add: setStatus_eq [of t RUNNABLE m w] Let_def afterRaw_def
        validateThreadTransition_def)

lemma setStatus_performed_frame:
  assumes "getStatus w t \<noteq> s" and "\<not> (getStatus w t = RUNNING \<and> s = RUNNABLE)"
    and "\<not> (immortal (heap w t) \<and> s = TERMINATED)"
    and "validateThreadTransition (getStatus w t) s"
  shows "frameOK t (afterRaw t s w) (finalWorld (setStatus t s m w))"
proof (cases "getStatus w t = PARKED")
  case False
  have r: "frameOK t (afterRaw t s w) (resurrectThread t (afterRaw t s w))"
    by (rule frameOK_heap_eq) simp_all
  show ?thesis
    using frameOK_postTransition [of t "afterRaw t s w" m]
      frameOK_trans [OF r frameOK_postTransition [of t "resurrectThread t (afterRaw t s w)" m]]
    by (simp add: setStatus_performed_unparked [OF assms False])
next
  case True
  note eq = setStatus_performed_parked [OF assms(1) assms(4) True, of m]
  let ?w1 = "afterRaw t RUNNABLE w"
  have f2: "frameOK t ?w1 (finalWorld (asyncReturn t None None ?w1))"
    by (rule frameOK_asyncReturn)
  have f3: "\<And>v. asyncReturn t None None ?w1 = Inr v \<Longrightarrow>
       frameOK t ?w1 (finalWorld (postTransition t m v))"
    using f2 by (auto intro: frameOK_trans [OF _ frameOK_postTransition])
  have f4: "\<And>e v. asyncReturn t None None ?w1 = Inl (e, v) \<Longrightarrow> frameOK t ?w1 v"
    using f2 by auto
  have "frameOK t ?w1 (finalWorld (case asyncReturn t None None ?w1 of
        Inl x \<Rightarrow> Inl x | Inr w2 \<Rightarrow> postTransition t m w2))"
    using f3 f4 by (simp split: sum.split prod.split)
  then show ?thesis
    unfolding eq
    by (simp add: setStatus_performed_parked_RUNNABLE [OF assms(1) assms(4) True])
qed

lemma getStatus_exit:
  "getStatus (finalWorld (exit t w)) t = ASYNC_WAITING
   \<or> getStatus (finalWorld (exit t w)) t = TERMINATED"
  using heap_exit [of t w] by (auto simp: getStatus_def heap_rawSetStatus)

lemma getStatus_postTransition:
  "getStatus w t \<noteq> TERMINATED \<Longrightarrow> getStatus w t \<noteq> RUNNING \<Longrightarrow>
   getStatus (finalWorld (postTransition t m w)) t = getStatus w t"
  by (cases "getStatus w t"; cases m;
      simp add: postTransition_def suspendOnMonitor_def getStatus_def)

lemma getStatus_postTransition_TERMINATED:
  "getStatus w t = TERMINATED \<Longrightarrow>
   getStatus (finalWorld (postTransition t m w)) t = ASYNC_WAITING
   \<or> getStatus (finalWorld (postTransition t m w)) t = TERMINATED"
  using getStatus_exit [of t w] by (simp add: postTransition_def)

lemma getStatus_asyncReturn_RUNNABLE:
  "getStatus w t = RUNNABLE \<Longrightarrow> getStatus (finalWorld (asyncReturn t rv rv2 w)) t = RUNNABLE"
  apply (subst asyncReturn.simps)
  apply (simp add: Let_def setStatus_unparked split: list.split sum.split)
  done

lemma getStatus_setStatus_performed:
  assumes "getStatus w t \<noteq> s" and "\<not> (getStatus w t = RUNNING \<and> s = RUNNABLE)"
    and "\<not> (immortal (heap w t) \<and> s = TERMINATED)"
    and "validateThreadTransition (getStatus w t) s"
  shows "(s \<noteq> TERMINATED \<and> s \<noteq> RUNNING \<longrightarrow>
            getStatus (finalWorld (setStatus t s m w)) t = s) \<and>
         (s = TERMINATED \<longrightarrow> getStatus (finalWorld (setStatus t s m w)) t = ASYNC_WAITING
             \<or> getStatus (finalWorld (setStatus t s m w)) t = TERMINATED)"
proof (cases "getStatus w t = PARKED")
  case False
  have a: "getStatus (resurrectThread t (afterRaw t s w)) t = s"
    using getStatus_afterRaw [of t s w] by (simp add: getStatus_def)
  have b: "getStatus (afterRaw t s w) t = s"
    by (rule getStatus_afterRaw)
  have eq: "setStatus t s m w =
     postTransition t m (if getStatus w t = TERMINATED
        then resurrectThread t (afterRaw t s w) else afterRaw t s w)"
    by (rule setStatus_performed_unparked [OF assms False])
  show ?thesis
    unfolding eq
    using a b
      getStatus_postTransition_TERMINATED [of "afterRaw t s w" t m]
      getStatus_postTransition_TERMINATED [of "resurrectThread t (afterRaw t s w)" t m]
      getStatus_postTransition [of "afterRaw t s w" t m]
      getStatus_postTransition [of "resurrectThread t (afterRaw t s w)" t m]
    by (cases "s = TERMINATED"; cases "getStatus w t = TERMINATED"; simp)
next
  case True
  note eq = setStatus_performed_parked [OF assms(1) assms(4) True, of m]
  let ?w1 = "afterRaw t RUNNABLE w"
  have r: "getStatus (finalWorld (asyncReturn t None None ?w1)) t = RUNNABLE"
    using getStatus_afterRaw [of t RUNNABLE w] by (simp add: getStatus_asyncReturn_RUNNABLE)
  have f3: "\<And>v. asyncReturn t None None ?w1 = Inr v \<Longrightarrow>
       getStatus (finalWorld (postTransition t m v)) t = RUNNABLE"
    using r by (simp add: getStatus_postTransition)
  have f4: "\<And>e v. asyncReturn t None None ?w1 = Inl (e, v) \<Longrightarrow> getStatus v t = RUNNABLE"
    using r by simp
  have "getStatus (finalWorld (case asyncReturn t None None ?w1 of
        Inl x \<Rightarrow> Inl x | Inr w2 \<Rightarrow> postTransition t m w2)) t = RUNNABLE"
    using f3 f4 by (simp split: sum.split prod.split)
  then show ?thesis
    unfolding eq
    by (simp add: setStatus_performed_parked_RUNNABLE [OF assms(1) assms(4) True])
qed

lemma validateThreadTransition_RUNNING:
  "validateThreadTransition x RUNNING \<Longrightarrow> x = RUNNABLE"
  by (cases x) (simp_all add: validateThreadTransition_def)

lemma setStatus_RUNNABLE_to_RUNNING:
  assumes "getStatus w t = RUNNABLE"
  shows "setStatus t RUNNING m w = run t (afterRaw t RUNNING w)"
proof -
  have g: "getStatus (afterRaw t RUNNING w) t = RUNNING"
    by (rule getStatus_afterRaw)
  have "setStatus t RUNNING m w = postTransition t m (afterRaw t RUNNING w)"
    using assms
    by (subst setStatus_performed_unparked) (auto simp: validateThreadTransition_def)
  then show ?thesis
    using g by (simp add: postTransition_def)
qed

section \<open>Status transitions\<close>

text \<open>
  C2. After every transition that \<open>setStatus\<close> performs (the requested status differs
  from the current one, it is not the ignored \<open>RUNNING\<close> to \<open>RUNNABLE\<close> request, not the
  termination of an immortal thread, and the table permits it), the Java field
  \<^verbatim>\<open>threadStatus\<close> is the JVMTI projection of the status the thread has when the call
  ends, whether it returns or throws (or, where the thread's loop has called code
  outside \<^verbatim>\<open>threading.ts\<close>, when that code is entered): \<open>NEW\<close> gives \<open>ALIVE\<close>, \<open>RUNNING\<close> and \<open>RUNNABLE\<close> give
  \<open>RUNNABLE\<close>, \<open>BLOCKED\<close> and \<open>UNINTERRUPTABLY_BLOCKED\<close> give \<open>BLOCKED_ON_MONITOR_ENTER\<close>,
  \<open>WAITING\<close>, \<open>ASYNC_WAITING\<close> and \<open>PARKED\<close> give \<open>WAITING_INDEFINITELY\<close>, \<open>TIMED_WAITING\<close>
  gives \<open>WAITING_WITH_TIMEOUT\<close>, \<open>TERMINATED\<close> gives \<open>TERMINATED\<close>. For a request other than
  \<open>RUNNING\<close> and \<open>TERMINATED\<close> that status is the requested one. A request for
  \<open>TERMINATED\<close> passes through \<open>ASYNC_WAITING\<close> while the thread acquires the monitor of
  its Java object. A request for \<open>RUNNING\<close> sets the status to \<open>RUNNING\<close> and the field to
  \<open>RUNNABLE\<close> and enters the thread's execution loop in that state; the loop can change
  the status again before the call ends (a thread without frames is terminated), and
  the field follows it.
\<close>

theorem set_status_thread_status_projection:
  assumes "getStatus w t \<noteq> s" and "\<not> (getStatus w t = RUNNING \<and> s = RUNNABLE)"
    and "\<not> (immortal (heap w t) \<and> s = TERMINATED)"
    and "validateThreadTransition (getStatus w t) s"
  shows "threadStatus (jvmThreadObj (heap (finalWorld (setStatus t s m w)) t)) =
           (case getStatus (finalWorld (setStatus t s m w)) t of
              NEW \<Rightarrow> ALIVE
            | RUNNING \<Rightarrow> JVMTI_RUNNABLE
            | RUNNABLE \<Rightarrow> JVMTI_RUNNABLE
            | BLOCKED \<Rightarrow> BLOCKED_ON_MONITOR_ENTER
            | UNINTERRUPTABLY_BLOCKED \<Rightarrow> BLOCKED_ON_MONITOR_ENTER
            | WAITING \<Rightarrow> WAITING_INDEFINITELY
            | ASYNC_WAITING \<Rightarrow> WAITING_INDEFINITELY
            | PARKED \<Rightarrow> WAITING_INDEFINITELY
            | TIMED_WAITING \<Rightarrow> WAITING_WITH_TIMEOUT
            | TERMINATED \<Rightarrow> JVMTI_TERMINATED)
         \<and> (s \<noteq> TERMINATED \<and> s \<noteq> RUNNING \<longrightarrow>
              getStatus (finalWorld (setStatus t s m w)) t = s)
         \<and> (s = TERMINATED \<longrightarrow> getStatus (finalWorld (setStatus t s m w)) t = ASYNC_WAITING
             \<or> getStatus (finalWorld (setStatus t s m w)) t = TERMINATED)
         \<and> (s = RUNNING \<longrightarrow>
              setStatus t s m w = run t (afterRaw t RUNNING w)
              \<and> getStatus (afterRaw t RUNNING w) t = RUNNING
              \<and> threadStatus (jvmThreadObj (heap (afterRaw t RUNNING w) t)) = JVMTI_RUNNABLE)"
proof -
  have "consistent (finalWorld (setStatus t s m w)) t"
    using setStatus_performed_frame [OF assms, of m] consistent_afterRaw [of t s w]
    by (simp add: frameOK_def)
  then have "threadStatus (jvmThreadObj (heap (finalWorld (setStatus t s m w)) t)) =
      jvmtiOf (getStatus (finalWorld (setStatus t s m w)) t)"
    by (simp add: consistent_def)
  moreover have "\<And>x. jvmtiOf x = (case x of
              NEW \<Rightarrow> ALIVE
            | RUNNING \<Rightarrow> JVMTI_RUNNABLE
            | RUNNABLE \<Rightarrow> JVMTI_RUNNABLE
            | BLOCKED \<Rightarrow> BLOCKED_ON_MONITOR_ENTER
            | UNINTERRUPTABLY_BLOCKED \<Rightarrow> BLOCKED_ON_MONITOR_ENTER
            | WAITING \<Rightarrow> WAITING_INDEFINITELY
            | ASYNC_WAITING \<Rightarrow> WAITING_INDEFINITELY
            | PARKED \<Rightarrow> WAITING_INDEFINITELY
            | TIMED_WAITING \<Rightarrow> WAITING_WITH_TIMEOUT
            | TERMINATED \<Rightarrow> JVMTI_TERMINATED)"
    by (case_tac x) simp_all
  moreover have "s = RUNNING \<longrightarrow>
              setStatus t s m w = run t (afterRaw t RUNNING w)
              \<and> getStatus (afterRaw t RUNNING w) t = RUNNING
              \<and> threadStatus (jvmThreadObj (heap (afterRaw t RUNNING w) t)) = JVMTI_RUNNABLE"
  proof
    assume r: "s = RUNNING"
    have "getStatus w t = RUNNABLE"
      using assms(4) unfolding r by (rule validateThreadTransition_RUNNING)
    then have "setStatus t RUNNING m w = run t (afterRaw t RUNNING w)"
      by (rule setStatus_RUNNABLE_to_RUNNING)
    moreover have "threadStatus (jvmThreadObj (heap (afterRaw t RUNNING w) t)) = JVMTI_RUNNABLE"
      by (simp add: afterRaw_def heap_rawSetStatus)
    ultimately show "setStatus t s m w = run t (afterRaw t RUNNING w)
              \<and> getStatus (afterRaw t RUNNING w) t = RUNNING
              \<and> threadStatus (jvmThreadObj (heap (afterRaw t RUNNING w) t)) = JVMTI_RUNNABLE"
      unfolding r by (simp add: getStatus_afterRaw)
  qed
  ultimately show ?thesis
    using getStatus_setStatus_performed [OF assms, of m] by simp
qed

theorem set_status_thread_status_projection_witness:
  "getStatus (exWorld RUNNING) 0 \<noteq> TERMINATED
   \<and> validateThreadTransition (getStatus (exWorld RUNNING) 0) TERMINATED
   \<and> getStatus (finalWorld (setStatus 0 TERMINATED None (exWorld RUNNING))) 0 = TERMINATED
   \<and> threadStatus (jvmThreadObj (heap (finalWorld (setStatus 0 TERMINATED None (exWorld RUNNING))) 0))
       = JVMTI_TERMINATED
   \<and> getStatus (setStack 0 [] (exWorld RUNNABLE)) 0 \<noteq> RUNNING
   \<and> validateThreadTransition (getStatus (setStack 0 [] (exWorld RUNNABLE)) 0) RUNNING
   \<and> getStatus (finalWorld (setStatus 0 RUNNING None (setStack 0 [] (exWorld RUNNABLE)))) 0
       = TERMINATED
   \<and> threadStatus (jvmThreadObj (heap (finalWorld
        (setStatus 0 RUNNING None (setStack 0 [] (exWorld RUNNABLE)))) 0)) = JVMTI_TERMINATED
   \<and> threads (finalWorld (setStatus 0 RUNNING None (setStack 0 [] (exWorld RUNNABLE)))) = []"
proof -
  let ?v = "setStack 0 [] (exWorld RUNNABLE)"
  have h1: "getStatus (exWorld RUNNING) 0 \<noteq> TERMINATED"
    by (simp add: getStatus_def exWorld_def exThread_def)
  have h2: "\<not> (getStatus (exWorld RUNNING) 0 = RUNNING \<and> TERMINATED = RUNNABLE)" by simp
  have h3: "\<not> (immortal (heap (exWorld RUNNING) 0) \<and> TERMINATED = TERMINATED)"
    by (simp add: exWorld_def exThread_def)
  have h4: "validateThreadTransition (getStatus (exWorld RUNNING) 0) TERMINATED"
    by (simp add: getStatus_def exWorld_def exThread_def validateThreadTransition_def)
  have st: "getStatus (finalWorld (setStatus 0 TERMINATED None (exWorld RUNNING))) 0 = TERMINATED"
    by code_simp
  have k1: "getStatus ?v 0 \<noteq> RUNNING"
    by (simp add: getStatus_def setStack_def exWorld_def exThread_def)
  have k2: "\<not> (getStatus ?v 0 = RUNNING \<and> RUNNING = RUNNABLE)" by simp
  have k3: "\<not> (immortal (heap ?v 0) \<and> RUNNING = TERMINATED)" by simp
  have k4: "validateThreadTransition (getStatus ?v 0) RUNNING"
    by (simp add: getStatus_def setStack_def exWorld_def exThread_def validateThreadTransition_def)
  have su: "getStatus (finalWorld (setStatus 0 RUNNING None ?v)) 0 = TERMINATED"
    by code_simp
  have sv: "threads (finalWorld (setStatus 0 RUNNING None ?v)) = []"
    by code_simp
  show ?thesis
    using set_status_thread_status_projection [OF h1 h2 h3 h4, of None, THEN conjunct1]
      set_status_thread_status_projection [OF k1 k2 k3 k4, of None, THEN conjunct1]
      h1 h4 st k1 k4 su sv
    by simp
qed

text \<open>
  C8. On a \<open>RUNNING\<close> thread \<open>setStatus(RUNNABLE)\<close> is ignored: the call returns and the
  whole state is unchanged (status, Java field, pool, deferred callbacks, outgoing
  calls).
\<close>

theorem set_status_running_runnable_ignored:
  "getStatus w t = RUNNING \<Longrightarrow> setStatus t RUNNABLE mon w = Inr w"
  by (simp add: setStatus.simps)

theorem set_status_running_runnable_ignored_witness:
  "getStatus (exWorld RUNNING) 0 = RUNNING
   \<and> setStatus 0 RUNNABLE None (exWorld RUNNING) = Inr (exWorld RUNNING)"
proof -
  have h: "getStatus (exWorld RUNNING) 0 = RUNNING"
    by (simp add: getStatus_def exWorld_def exThread_def)
  show ?thesis
    using h set_status_running_runnable_ignored [OF h, of None] by simp
qed

text \<open>
  C9. On an immortal thread that is not \<open>TERMINATED\<close>, \<open>setStatus(TERMINATED)\<close> is a
  no-op: the call returns and the whole state is unchanged, so no monitor is notified,
  the pool keeps the thread and no shutdown starts.
\<close>

theorem set_status_immortal_terminated_noop:
  "immortal (heap w t) \<Longrightarrow> getStatus w t \<noteq> TERMINATED \<Longrightarrow>
   setStatus t TERMINATED mon w = Inr w"
  by (simp add: setStatus.simps)

theorem set_status_immortal_terminated_noop_witness:
  "immortal (heap (exImmortalWorld RUNNING) 0)
   \<and> getStatus (exImmortalWorld RUNNING) 0 \<noteq> TERMINATED
   \<and> setStatus 0 TERMINATED None (exImmortalWorld RUNNING) = Inr (exImmortalWorld RUNNING)"
proof -
  have h1: "immortal (heap (exImmortalWorld RUNNING) 0)"
    by (simp add: exImmortalWorld_def)
  have h2: "getStatus (exImmortalWorld RUNNING) 0 \<noteq> TERMINATED"
    by (simp add: exImmortalWorld_def getStatus_def exWorld_def exThread_def)
  show ?thesis
    using h1 h2 set_status_immortal_terminated_noop [OF h1 h2, of None] by simp
qed

section \<open>Resuming a bytecode frame\<close>

text \<open>
  C4. On a bytecode frame whose \<open>pc\<close> points into the code, \<open>scheduleResume\<close> advances
  \<open>pc\<close> by 5 when the opcode there is \<open>INVOKEINTERFACE\<close> or \<open>INVOKEINTERFACE_FAST\<close> and
  by 3 for each of the other twelve invoke opcodes, and appends \<open>rv\<close> and then \<open>rv2\<close> to
  the operand stack, each only when it is defined; every other field of the frame is
  kept. On any other opcode the assertion fails.
\<close>

theorem schedule_resume_advances_pc:
  assumes "pc f < length (code (bmethod f))"
  shows "(code (bmethod f) ! pc f \<in> {INVOKEINTERFACE, INVOKEINTERFACE_FAST} \<longrightarrow>
           BytecodeStackFrame_scheduleResume f rv rv2 =
             Inr (f\<lparr>pc := pc f + 5, opstack := opstack f @ pushed rv rv2\<rparr>))
       \<and> (code (bmethod f) ! pc f \<in> {INVOKESPECIAL, INVOKESTATIC, INVOKEVIRTUAL,
             INVOKESTATIC_FAST, INVOKENONVIRTUAL_FAST, INVOKEVIRTUAL_FAST, INVOKEHANDLE,
             INVOKEBASIC, LINKTOSPECIAL, LINKTOVIRTUAL, INVOKEDYNAMIC, INVOKEDYNAMIC_FAST} \<longrightarrow>
           BytecodeStackFrame_scheduleResume f rv rv2 =
             Inr (f\<lparr>pc := pc f + 3, opstack := opstack f @ pushed rv rv2\<rparr>))
       \<and> ((\<exists>n. code (bmethod f) ! pc f = OTHER_OPCODE n) \<longrightarrow>
           BytecodeStackFrame_scheduleResume f rv rv2 = Inl AssertionError)"
  using assms
  by (cases "code (bmethod f) ! pc f"; cases rv; cases rv2;
      simp add: BytecodeStackFrame_scheduleResume_def pushed_def Let_def)

theorem schedule_resume_advances_pc_witness:
  "pc (exFrame 0) < length (code (bmethod (exFrame 0)))
   \<and> BytecodeStackFrame_scheduleResume (exFrame 0) (Some (NumV 42)) None =
        Inr ((exFrame 0)\<lparr>pc := 5, opstack := [NumV 1, NumV 42]\<rparr>)
   \<and> BytecodeStackFrame_scheduleResume (exFrame 5) (Some (NumV 42)) (Some NullV) =
        Inr ((exFrame 5)\<lparr>pc := 8, opstack := [NumV 1, NumV 42, NullV]\<rparr>)
   \<and> BytecodeStackFrame_scheduleResume (exFrame 8) None None = Inl AssertionError"
  using schedule_resume_advances_pc [of "exFrame 0" "Some (NumV 42)" None]
    schedule_resume_advances_pc [of "exFrame 5" "Some (NumV 42)" "Some NullV"]
    schedule_resume_advances_pc [of "exFrame 8" None None]
  by (simp add: exFrame_def pushed_def)

section \<open>Park and unpark\<close>

lemma getStatus_setParkCount [simp]: "getStatus (setParkCount t c w) u = getStatus w u"
  by (simp add: getStatus_def)

lemma getRef_setParkCount [simp]: "getRef (setParkCount t c w) u = getRef w u"
  by (simp add: getRef_def)

lemma parkCount_setParkCount [simp]: "parkCount (setParkCount t c w) t = c"
  by (simp add: parkCount_def setParkCount_def getRef_def)

lemma parkCount_setStatus: "parkCount (finalWorld (setStatus t s m w)) t = parkCount w t"
  using frameOK_setStatus [of t w s m]
  by (simp add: frameOK_def parkCount_def getRef_def)

lemma setStatus_result_status:
  assumes "setStatus t s m w = Inr w'" and "s \<noteq> TERMINATED" and "s \<noteq> RUNNING"
  shows "getStatus w' t = s \<or> (getStatus w t = RUNNING \<and> s = RUNNABLE \<and> w' = w)"
proof (cases "getStatus w t \<noteq> s \<and> \<not> (getStatus w t = RUNNING \<and> s = RUNNABLE)")
  case False
  then show ?thesis
    using assms by (auto simp: setStatus_eq)
next
  case True
  show ?thesis
  proof (cases "validateThreadTransition (getStatus w t) s")
    case False
    then show ?thesis
      using True assms by (simp add: setStatus_eq Let_def)
  next
    case v: True
    have "getStatus (finalWorld (setStatus t s m w)) t = s"
      using getStatus_setStatus_performed [of w t s m] True v assms(2) assms(3) by simp
    then show ?thesis
      using assms(1) by simp
  qed
qed

lemma park_step:
  assumes "park t w = Inr w'" and "getStatus w t = PARKED \<longleftrightarrow> 0 < parkCount w t"
  shows "parkCount w' t = parkCount w t + 1
       \<and> (getStatus w' t = PARKED \<longleftrightarrow> 0 < parkCount w' t)
       \<and> (getStatus w' t = RUNNING \<longrightarrow> getStatus w t = RUNNING)
       \<and> getStatus w' t \<in> {RUNNABLE, RUNNING, PARKED, getStatus w t}"
proof (cases "0 < parkCount w t + 1")
  case False
  then have "w' = setParkCount t (parkCount w t + 1) w"
    using assms(1) by (simp add: park_def Let_def)
  then show ?thesis
    using False assms(2) by auto
next
  case True
  let ?w1 = "setParkCount t (parkCount w t + 1) w"
  have e: "setStatus t PARKED None ?w1 = Inr w'"
    using True assms(1) by (simp add: park_def Let_def)
  have c: "parkCount w' t = parkCount w t + 1"
    using parkCount_setStatus [of t PARKED None ?w1] e by simp
  have s: "getStatus w' t = PARKED"
    using setStatus_result_status [OF e] by simp
  show ?thesis
    using c s True by simp
qed

lemma unpark_step:
  assumes "unpark t w = Inr w'" and "getStatus w t = PARKED \<longleftrightarrow> 0 < parkCount w t"
  shows "parkCount w' t = parkCount w t - 1
       \<and> (getStatus w' t = PARKED \<longleftrightarrow> 0 < parkCount w' t)
       \<and> (getStatus w' t = RUNNING \<longrightarrow> getStatus w t = RUNNING)
       \<and> getStatus w' t \<in> {RUNNABLE, RUNNING, PARKED, getStatus w t}
       \<and> (parkCount w' t \<le> 0 \<longrightarrow> getStatus w' t \<in> {RUNNABLE, RUNNING})"
proof (cases "parkCount w t - 1 \<le> 0")
  case False
  then have "w' = setParkCount t (parkCount w t - 1) w"
    using assms(1) by (simp add: unpark_def Let_def)
  then show ?thesis
    using False assms(2) by auto
next
  case True
  let ?w1 = "setParkCount t (parkCount w t - 1) w"
  have e: "setStatus t RUNNABLE None ?w1 = Inr w'"
    using True assms(1) by (simp add: unpark_def Let_def)
  have c: "parkCount w' t = parkCount w t - 1"
    using parkCount_setStatus [of t RUNNABLE None ?w1] e by simp
  have s: "getStatus w' t = RUNNABLE \<or> (getStatus w t = RUNNING \<and> w' = ?w1)"
    using setStatus_result_status [OF e] by simp
  show ?thesis
    using c s True by auto
qed

lemma parkCalls_invariant:
  assumes "parkCalls t cs w = Inr w'" and "getStatus w t = PARKED \<longleftrightarrow> 0 < parkCount w t"
  shows "parkCount w' t = parkCount w t + signedCount cs
       \<and> (getStatus w' t = PARKED \<longleftrightarrow> 0 < parkCount w' t)
       \<and> (getStatus w' t = RUNNING \<longrightarrow> getStatus w t = RUNNING)
       \<and> getStatus w' t \<in> {RUNNABLE, RUNNING, PARKED, getStatus w t}"
  using assms
proof (induction cs arbitrary: w)
  case Nil
  then show ?case by simp
next
  case (Cons c cs)
  show ?case
  proof (cases c)
    case Park
    then obtain w1 where p: "park t w = Inr w1" and r: "parkCalls t cs w1 = Inr w'"
      using Cons.prems(1) by (auto split: sum.splits)
    note st = park_step [OF p Cons.prems(2)]
    have ih: "parkCount w' t = parkCount w1 t + signedCount cs
       \<and> (getStatus w' t = PARKED \<longleftrightarrow> 0 < parkCount w' t)
       \<and> (getStatus w' t = RUNNING \<longrightarrow> getStatus w1 t = RUNNING)
       \<and> getStatus w' t \<in> {RUNNABLE, RUNNING, PARKED, getStatus w1 t}"
      using Cons.IH [OF r] st by blast
    show ?thesis using ih st Park by auto
  next
    case Unpark
    then obtain w1 where p: "unpark t w = Inr w1" and r: "parkCalls t cs w1 = Inr w'"
      using Cons.prems(1) by (auto split: sum.splits)
    note st = unpark_step [OF p Cons.prems(2)]
    have ih: "parkCount w' t = parkCount w1 t + signedCount cs
       \<and> (getStatus w' t = PARKED \<longleftrightarrow> 0 < parkCount w' t)
       \<and> (getStatus w' t = RUNNING \<longrightarrow> getStatus w1 t = RUNNING)
       \<and> getStatus w' t \<in> {RUNNABLE, RUNNING, PARKED, getStatus w1 t}"
      using Cons.IH [OF r] st by blast
    show ?thesis using ih st Unpark by auto
  qed
qed

lemma parkCalls_first:
  assumes "parkCalls t (c # cs) w = Inr w'" and "getStatus w t \<noteq> PARKED" and "parkCount w t = 0"
  shows "getStatus w' t \<in> {RUNNABLE, RUNNING, PARKED}"
proof -
  have inv: "getStatus w t = PARKED \<longleftrightarrow> 0 < parkCount w t"
    using assms by simp
  obtain w1 where p: "(case c of Park \<Rightarrow> park t w | Unpark \<Rightarrow> unpark t w) = Inr w1"
      and r: "parkCalls t cs w1 = Inr w'"
    using assms(1) by (auto split: sum.splits)
  have s1: "getStatus w1 t \<in> {RUNNABLE, RUNNING, PARKED}
      \<and> (getStatus w1 t = PARKED \<longleftrightarrow> 0 < parkCount w1 t)"
  proof (cases c)
    case Park
    then show ?thesis using park_step [OF _ inv, of w1] p assms(3) by auto
  next
    case Unpark
    then show ?thesis using unpark_step [OF _ inv, of w1] p assms(3) by auto
  qed
  show ?thesis
    using parkCalls_invariant [OF r] s1 by auto
qed

text \<open>
  C1, as the code has it. For a thread that is not \<open>PARKED\<close> and whose park count is 0,
  and a finite sequence of \<open>park\<close> and \<open>unpark\<close> calls on it that returns: the final park
  count is the signed count; the final status is \<open>PARKED\<close> exactly when the signed count
  is positive; when it is not positive after at least one call, the status is
  \<open>RUNNABLE\<close>, or still \<open>RUNNING\<close> for a thread that started \<open>RUNNING\<close> (\<open>setStatus\<close>
  ignores \<open>RUNNING\<close> to \<open>RUNNABLE\<close>); the empty sequence changes nothing; and after an
  \<open>unpark\<close> on the fresh thread the next \<open>park\<close> only stores the count 0.
\<close>

theorem park_balance:
  assumes "getStatus w t \<noteq> PARKED" and "parkCount w t = 0"
    and "parkCalls t cs w = Inr w'"
  shows "parkCount w' t = signedCount cs
       \<and> (getStatus w' t = PARKED \<longleftrightarrow> 0 < signedCount cs)
       \<and> (signedCount cs \<le> 0 \<and> cs \<noteq> [] \<longrightarrow>
            getStatus w' t = RUNNABLE \<or> (getStatus w' t = RUNNING \<and> getStatus w t = RUNNING))
       \<and> (cs = [] \<longrightarrow> w' = w)
       \<and> (\<forall>w1. unpark t w = Inr w1 \<longrightarrow> park t w1 = Inr (setParkCount t 0 w1))"
proof -
  have inv: "getStatus w t = PARKED \<longleftrightarrow> 0 < parkCount w t"
    using assms by simp
  note a = parkCalls_invariant [OF assms(3) inv]
  have b: "cs \<noteq> [] \<Longrightarrow> getStatus w' t \<in> {RUNNABLE, RUNNING, PARKED}"
    using parkCalls_first [OF _ assms(1) assms(2)] assms(3) by (cases cs) auto
  have c: "\<And>w1. unpark t w = Inr w1 \<Longrightarrow> park t w1 = Inr (setParkCount t 0 w1)"
  proof -
    fix w1 assume u: "unpark t w = Inr w1"
    have "parkCount w1 t = -1"
      using unpark_step [OF u inv] assms(2) by simp
    then show "park t w1 = Inr (setParkCount t 0 w1)"
      by (simp add: park_def Let_def)
  qed
  have d: "cs = [] \<Longrightarrow> w' = w"
    using assms(3) by simp
  show ?thesis
    using a b c d assms(2) by auto
qed

text \<open>
  C1 as the specification states it fails on a \<open>RUNNING\<close> thread: with one \<open>park\<close> and
  one \<open>unpark\<close> the
  signed count is 0 in both orders, but \<open>unpark\<close> before \<open>park\<close> leaves the thread
  \<open>RUNNING\<close>, while \<open>park\<close> before \<open>unpark\<close> leaves it \<open>RUNNABLE\<close>.
\<close>

theorem park_balance_counterexample:
  "getStatus (exWorld RUNNING) 0 \<noteq> PARKED \<and> parkCount (exWorld RUNNING) 0 = 0
   \<and> signedCount [Unpark, Park] = 0 \<and> signedCount [Park, Unpark] = 0
   \<and> returns (parkCalls 0 [Unpark, Park] (exWorld RUNNING))
   \<and> getStatus (finalWorld (parkCalls 0 [Unpark, Park] (exWorld RUNNING))) 0 = RUNNING
   \<and> returns (parkCalls 0 [Park, Unpark] (exWorld RUNNING))
   \<and> getStatus (finalWorld (parkCalls 0 [Park, Unpark] (exWorld RUNNING))) 0 = RUNNABLE"
  by code_simp

theorem park_balance_witness:
  "getStatus (exWorld RUNNING) 0 \<noteq> PARKED \<and> parkCount (exWorld RUNNING) 0 = 0
   \<and> returns (parkCalls 0 [Park, Park, Unpark] (exWorld RUNNING))
   \<and> parkCount (finalWorld (parkCalls 0 [Park, Park, Unpark] (exWorld RUNNING))) 0 = 1
   \<and> getStatus (finalWorld (parkCalls 0 [Park, Park, Unpark] (exWorld RUNNING))) 0 = PARKED
   \<and> returns (parkCalls 0 [Park, Unpark, Unpark] (exWorld RUNNING))
   \<and> parkCount (finalWorld (parkCalls 0 [Park, Unpark, Unpark] (exWorld RUNNING))) 0 = -1
   \<and> getStatus (finalWorld (parkCalls 0 [Park, Unpark, Unpark] (exWorld RUNNING))) 0 = RUNNABLE
   \<and> returns (unpark 0 (exWorld RUNNING))
   \<and> park 0 (finalWorld (unpark 0 (exWorld RUNNING)))
        = Inr (setParkCount 0 0 (finalWorld (unpark 0 (exWorld RUNNING))))"
proof -
  have h1: "getStatus (exWorld RUNNING) 0 \<noteq> PARKED" by code_simp
  have h2: "parkCount (exWorld RUNNING) 0 = 0" by code_simp
  have r: "returns (parkCalls 0 [Park, Park, Unpark] (exWorld RUNNING))" by code_simp
  then obtain w' where h3: "parkCalls 0 [Park, Park, Unpark] (exWorld RUNNING) = Inr w'"
    by (auto simp: returns_def split: sum.splits)
  have r2: "returns (parkCalls 0 [Park, Unpark, Unpark] (exWorld RUNNING))" by code_simp
  then obtain w2 where h4: "parkCalls 0 [Park, Unpark, Unpark] (exWorld RUNNING) = Inr w2"
    by (auto simp: returns_def split: sum.splits)
  have "getStatus (finalWorld (parkCalls 0 [Park, Unpark, Unpark] (exWorld RUNNING))) 0 \<noteq> RUNNING"
    by code_simp
  then have n: "getStatus w2 0 \<noteq> RUNNING"
    using h4 by simp
  have r3: "returns (unpark 0 (exWorld RUNNING))" by code_simp
  then obtain w3 where h5: "unpark 0 (exWorld RUNNING) = Inr w3"
    by (auto simp: returns_def split: sum.splits)
  show ?thesis
    using park_balance [OF h1 h2 h3] park_balance [OF h1 h2 h4] h1 h2 r r2 r3 h3 h4 h5 n
    by simp
qed

lemma setStatus_RUNNABLE_simple:
  assumes "getStatus w t \<in> {NEW, WAITING, BLOCKED}"
  shows "setStatus t RUNNABLE m w = Inr (threadRunnable t (afterRaw t RUNNABLE w))"
proof -
  have g: "getStatus (afterRaw t RUNNABLE w) t = RUNNABLE"
    by (rule getStatus_afterRaw)
  have "setStatus t RUNNABLE m w = postTransition t m (afterRaw t RUNNABLE w)"
    using assms
    by (subst setStatus_performed_unparked) (auto simp: validateThreadTransition_def)
  then show ?thesis
    using g by (simp add: postTransition_def)
qed

text \<open>
  C10. An \<open>unpark\<close> whose resulting count is at most 0 is \<open>setStatus(RUNNABLE)\<close> on the
  state with the new count, whatever the thread's status: a \<open>NEW\<close>, \<open>WAITING\<close> or
  \<open>BLOCKED\<close> thread that was never parked becomes \<open>RUNNABLE\<close>. A \<open>park\<close> whose resulting
  count is at most 0 only stores the count: no thread object changes.
\<close>

theorem unpark_sets_runnable_park_leaves_status:
  "(parkCount w t - 1 \<le> 0 \<longrightarrow>
      unpark t w = setStatus t RUNNABLE None (setParkCount t (parkCount w t - 1) w))
   \<and> (parkCount w t - 1 \<le> 0 \<and> getStatus w t \<in> {NEW, WAITING, BLOCKED} \<longrightarrow>
        returns (unpark t w) \<and> getStatus (finalWorld (unpark t w)) t = RUNNABLE)
   \<and> (parkCount w t + 1 \<le> 0 \<longrightarrow>
        park t w = Inr (setParkCount t (parkCount w t + 1) w)
        \<and> heap (setParkCount t (parkCount w t + 1) w) = heap w)"
proof -
  have a: "parkCount w t - 1 \<le> 0 \<Longrightarrow>
      unpark t w = setStatus t RUNNABLE None (setParkCount t (parkCount w t - 1) w)"
    by (simp add: unpark_def Let_def)
  have b: "parkCount w t - 1 \<le> 0 \<Longrightarrow> getStatus w t \<in> {NEW, WAITING, BLOCKED} \<Longrightarrow>
        returns (unpark t w) \<and> getStatus (finalWorld (unpark t w)) t = RUNNABLE"
  proof -
    assume c: "parkCount w t - 1 \<le> 0" and s: "getStatus w t \<in> {NEW, WAITING, BLOCKED}"
    let ?w1 = "setParkCount t (parkCount w t - 1) w"
    have "getStatus ?w1 t \<in> {NEW, WAITING, BLOCKED}"
      using s by simp
    then have "unpark t w = Inr (threadRunnable t (afterRaw t RUNNABLE ?w1))"
      using a [OF c] setStatus_RUNNABLE_simple [of ?w1 t None] by simp
    then show ?thesis
      using getStatus_afterRaw [of t RUNNABLE ?w1] by (simp add: returns_def getStatus_def)
  qed
  have c: "parkCount w t + 1 \<le> 0 \<Longrightarrow>
        park t w = Inr (setParkCount t (parkCount w t + 1) w)"
    by (simp add: park_def Let_def)
  show ?thesis
    using a b c by simp
qed

theorem unpark_sets_runnable_park_leaves_status_witness:
  "parkCount (exWorld NEW) 0 - 1 \<le> 0 \<and> getStatus (exWorld NEW) 0 = NEW
   \<and> returns (unpark 0 (exWorld NEW))
   \<and> getStatus (finalWorld (unpark 0 (exWorld NEW))) 0 = RUNNABLE
   \<and> getStatus (finalWorld (unpark 0 (exWorld WAITING))) 0 = RUNNABLE
   \<and> getStatus (finalWorld (unpark 0 (exWorld BLOCKED))) 0 = RUNNABLE
   \<and> parkCount (exStrayWorld RUNNING) 0 + 1 \<le> 0
   \<and> park 0 (exStrayWorld RUNNING) = Inr (setParkCount 0 (- 1) (exStrayWorld RUNNING))
   \<and> heap (finalWorld (park 0 (exStrayWorld RUNNING))) = heap (exStrayWorld RUNNING)"
proof -
  have c: "parkCount (exWorld NEW) 0 = 0" "parkCount (exWorld WAITING) 0 = 0"
    "parkCount (exWorld BLOCKED) 0 = 0" "parkCount (exStrayWorld RUNNING) 0 = - 2"
    by (simp_all add: parkCount_def exWorld_def exStrayWorld_def getRef_def exThread_def)
  have s: "getStatus (exWorld NEW) 0 = NEW" "getStatus (exWorld WAITING) 0 = WAITING"
    "getStatus (exWorld BLOCKED) 0 = BLOCKED"
    by (simp_all add: getStatus_def exWorld_def exThread_def)
  note u = unpark_sets_runnable_park_leaves_status [THEN conjunct2, THEN conjunct1]
  note p = unpark_sets_runnable_park_leaves_status [THEN conjunct2, THEN conjunct2]
  show ?thesis
    using u [of "exWorld NEW" 0] u [of "exWorld WAITING" 0] u [of "exWorld BLOCKED" 0]
      p [of "exStrayWorld RUNNING" 0]
    by (simp add: c s)
qed

section \<open>Exception handlers of a bytecode frame\<close>

lemma findHandler_append:
  "list_all (\<lambda>x. \<not> handlerMatches w m ecls p x \<and> \<not> needsResolution w m p x) pre \<Longrightarrow>
   findHandler w m ecls p (pre @ rest) = findHandler w m ecls p rest"
  by (induction pre) (auto simp: handlerMatches_def needsResolution_def split: option.splits)

lemma findHandler_NotFound:
  "list_all (\<lambda>x. \<not> handlerMatches w m ecls p x \<and> \<not> needsResolution w m p x) ehs \<Longrightarrow>
   findHandler w m ecls p ehs = NotFound"
  using findHandler_append [of w m ecls p ehs "[]"] by simp

lemma findHandler_hit:
  "handlerMatches w m ecls p h \<Longrightarrow> findHandler w m ecls p (h # post) = Found h"
  by (auto simp: handlerMatches_def split: option.splits)

lemma findHandler_Found_D:
  "findHandler w m ecls p ehs = Found h \<Longrightarrow>
   \<exists>pre post. ehs = pre @ h # post \<and> handlerMatches w m ecls p h
      \<and> list_all (\<lambda>x. \<not> handlerMatches w m ecls p x \<and> \<not> needsResolution w m p x) pre"
proof (induction ehs)
  case Nil
  then show ?case by simp
next
  case (Cons a ehs)
  show ?case
  proof (cases "findHandler w m ecls p (a # ehs) = findHandler w m ecls p ehs
                \<and> \<not> handlerMatches w m ecls p a \<and> \<not> needsResolution w m p a")
    case True
    then obtain pre post where "ehs = pre @ h # post" "handlerMatches w m ecls p h"
      "list_all (\<lambda>x. \<not> handlerMatches w m ecls p x \<and> \<not> needsResolution w m p x) pre"
      using Cons by auto
    then show ?thesis
      using True by (intro exI [of _ "a # pre"] exI [of _ post]) simp
  next
    case False
    then have "a = h \<and> handlerMatches w m ecls p h"
      using Cons.prems
      by (auto simp: handlerMatches_def needsResolution_def split: option.splits if_splits)
    then show ?thesis
      by (intro exI [of _ "[]"] exI [of _ ehs]) simp
  qed
qed

lemma findHandler_unresolved:
  "needsResolution w m p h \<Longrightarrow> findHandler w m ecls p (h # post) = NeedsResolution"
  by (simp add: needsResolution_def)

lemma findHandler_NeedsResolution_D:
  "findHandler w m ecls p ehs = NeedsResolution \<Longrightarrow>
   \<exists>pre h post. ehs = pre @ h # post \<and> needsResolution w m p h
      \<and> list_all (\<lambda>x. \<not> handlerMatches w m ecls p x \<and> \<not> needsResolution w m p x) pre"
proof (induction ehs)
  case Nil
  then show ?case by simp
next
  case (Cons a ehs)
  show ?case
  proof (cases "findHandler w m ecls p (a # ehs) = findHandler w m ecls p ehs
                \<and> \<not> handlerMatches w m ecls p a \<and> \<not> needsResolution w m p a")
    case True
    then obtain pre h post where "ehs = pre @ h # post" "needsResolution w m p h"
      "list_all (\<lambda>x. \<not> handlerMatches w m ecls p x \<and> \<not> needsResolution w m p x) pre"
      using Cons by auto
    then show ?thesis
      using True by (intro exI [of _ "a # pre"] exI [of _ h] exI [of _ post]) simp
  next
    case False
    then have "needsResolution w m p a"
      using Cons.prems
      by (auto simp: handlerMatches_def needsResolution_def split: option.splits if_splits)
    then show ?thesis
      by (intro exI [of _ "[]"] exI [of _ a] exI [of _ ehs]) simp
  qed
qed

text \<open>
  C5. \<open>scheduleException\<close> on a bytecode frame scans the exception table in order, and
  the first entry that matches or needs resolution decides. When that entry matches,
  the call answers \<open>true\<close>, the operand stack is exactly the exception and \<open>pc\<close> is the
  entry's \<open>handlerPC\<close>; nothing else changes. When that entry needs resolution (\<open>pc\<close> is
  in its range and its catch type is not resolved), no handler is selected: the frame
  is unchanged, the thread is set to \<open>ASYNC_WAITING\<close>, the resolution of the table's
  catch types is requested, and the call answers \<open>true\<close>. When no entry matches and none
  needs resolution, the call answers \<open>false\<close>, the frame is unchanged, and the lock of
  the frame's code is exited exactly when it is synchronized. Whenever the call answers
  \<open>true\<close>, it is for a deciding entry: either that entry matches and the frame was set up
  for it, or it needs resolution and the frame is unchanged. So the frame is set up for
  an entry only when that entry matches.
\<close>

theorem schedule_exception_handler_selection:
  fixes f :: BytecodeStackFrame and w :: world and e :: java_lang_Throwable
  defines "table \<equiv> exceptionHandlers (bmethod f)"
  defines "ok \<equiv> handlerMatches w (bmethod f) (getClass e) (pc f)"
  defines "unresolved \<equiv> needsResolution w (bmethod f) (pc f)"
  shows "(\<forall>pre h post. table = pre @ h # post \<and> ok h
            \<and> list_all (\<lambda>x. \<not> ok x \<and> \<not> unresolved x) pre \<longrightarrow>
          BytecodeStackFrame_scheduleException t e f w =
            Inr (True, f\<lparr>opstack := [ObjV e], pc := handlerPC h\<rparr>, w))
       \<and> (\<forall>pre h post. table = pre @ h # post \<and> unresolved h
            \<and> list_all (\<lambda>x. \<not> ok x \<and> \<not> unresolved x) pre \<longrightarrow>
          BytecodeStackFrame_scheduleException t e f w =
            (case setStatus t ASYNC_WAITING None w of
               Inl x \<Rightarrow> Inl x
             | Inr w1 \<Rightarrow>
                 Inr (True, f,
                      logCall (ResolveClasses t (loader (bmethod f))
                                 (handlerClasses (bmethod f))) w1)))
       \<and> (list_all (\<lambda>x. \<not> ok x \<and> \<not> unresolved x) table \<longrightarrow>
          BytecodeStackFrame_scheduleException t e f w =
            Inr (False, f, if isSynchronized (bmethod f)
                           then logCall (MethodLockExit t (fullSignature (bmethod f))) w else w))
       \<and> (\<forall>f' w'. BytecodeStackFrame_scheduleException t e f w = Inr (True, f', w') \<longrightarrow>
            (\<exists>pre h post. table = pre @ h # post
                  \<and> list_all (\<lambda>x. \<not> ok x \<and> \<not> unresolved x) pre
                  \<and> (ok h \<and> f' = f\<lparr>opstack := [ObjV e], pc := handlerPC h\<rparr> \<and> w' = w
                     \<or> unresolved h \<and> f' = f
                        \<and> (\<exists>w1. setStatus t ASYNC_WAITING None w = Inr w1
                              \<and> w' = logCall (ResolveClasses t (loader (bmethod f))
                                               (handlerClasses (bmethod f))) w1))))"
proof (intro conjI allI impI)
  fix pre h post
  assume a: "table = pre @ h # post \<and> ok h \<and> list_all (\<lambda>x. \<not> ok x \<and> \<not> unresolved x) pre"
  then have "findHandler w (bmethod f) (getClass e) (pc f) table = Found h"
    using findHandler_append [of w "bmethod f" "getClass e" "pc f" pre "h # post"]
      findHandler_hit [of w "bmethod f" "getClass e" "pc f" h post]
    by (simp add: ok_def unresolved_def)
  then show "BytecodeStackFrame_scheduleException t e f w =
            Inr (True, f\<lparr>opstack := [ObjV e], pc := handlerPC h\<rparr>, w)"
    by (simp add: BytecodeStackFrame_scheduleException_def table_def)
next
  fix pre h post
  assume a: "table = pre @ h # post \<and> unresolved h
     \<and> list_all (\<lambda>x. \<not> ok x \<and> \<not> unresolved x) pre"
  then have "findHandler w (bmethod f) (getClass e) (pc f) table = NeedsResolution"
    using findHandler_append [of w "bmethod f" "getClass e" "pc f" pre "h # post"]
      findHandler_unresolved [of w "bmethod f" "pc f" h "getClass e" post]
    by (simp add: ok_def unresolved_def)
  then show "BytecodeStackFrame_scheduleException t e f w =
            (case setStatus t ASYNC_WAITING None w of
               Inl x \<Rightarrow> Inl x
             | Inr w1 \<Rightarrow>
                 Inr (True, f,
                      logCall (ResolveClasses t (loader (bmethod f))
                                 (handlerClasses (bmethod f))) w1))"
    by (simp add: BytecodeStackFrame_scheduleException_def table_def)
next
  assume "list_all (\<lambda>x. \<not> ok x \<and> \<not> unresolved x) table"
  then have "findHandler w (bmethod f) (getClass e) (pc f) table = NotFound"
    using findHandler_NotFound [of w "bmethod f" "getClass e" "pc f" table]
    by (simp add: ok_def unresolved_def)
  then show "BytecodeStackFrame_scheduleException t e f w =
            Inr (False, f, if isSynchronized (bmethod f)
                           then logCall (MethodLockExit t (fullSignature (bmethod f))) w else w)"
    by (simp add: BytecodeStackFrame_scheduleException_def table_def)
next
  fix f' w'
  assume r: "BytecodeStackFrame_scheduleException t e f w = Inr (True, f', w')"
  let ?rq = "ResolveClasses t (loader (bmethod f)) (handlerClasses (bmethod f))"
  show "\<exists>pre h post. table = pre @ h # post
                  \<and> list_all (\<lambda>x. \<not> ok x \<and> \<not> unresolved x) pre
                  \<and> (ok h \<and> f' = f\<lparr>opstack := [ObjV e], pc := handlerPC h\<rparr> \<and> w' = w
                     \<or> unresolved h \<and> f' = f
                        \<and> (\<exists>w1. setStatus t ASYNC_WAITING None w = Inr w1
                              \<and> w' = logCall ?rq w1))"
  proof (cases "findHandler w (bmethod f) (getClass e) (pc f) table")
    case (Found h)
    then have "f' = f\<lparr>opstack := [ObjV e], pc := handlerPC h\<rparr> \<and> w' = w"
      using r by (simp add: BytecodeStackFrame_scheduleException_def table_def)
    then show ?thesis
      using findHandler_Found_D [OF Found] by (auto simp: ok_def unresolved_def)
  next
    case NeedsResolution
    obtain pre h post where d: "table = pre @ h # post" "unresolved h"
      "list_all (\<lambda>x. \<not> ok x \<and> \<not> unresolved x) pre"
      using findHandler_NeedsResolution_D [OF NeedsResolution]
      by (auto simp: ok_def unresolved_def)
    have "f' = f \<and> (\<exists>w1. setStatus t ASYNC_WAITING None w = Inr w1 \<and> w' = logCall ?rq w1)"
      using r NeedsResolution
      by (cases "setStatus t ASYNC_WAITING None w")
         (auto simp: BytecodeStackFrame_scheduleException_def table_def)
    then show ?thesis
      using d by blast
  next
    case NotFound
    then show ?thesis
      using r by (simp add: BytecodeStackFrame_scheduleException_def table_def)
  qed
qed

theorem schedule_exception_handler_selection_witness:
  "BytecodeStackFrame_scheduleException 0 exNPE (exHandlerFrame False 12) (exResolvedWorld RUNNING)
     = Inr (True, (exHandlerFrame False 12)\<lparr>opstack := [ObjV exNPE], pc := 30\<rparr>,
            exResolvedWorld RUNNING)
   \<and> BytecodeStackFrame_scheduleException 0 exNPE (exHandlerFrame True 22) (exResolvedWorld RUNNING)
     = Inr (False, exHandlerFrame True 22,
            logCall (MethodLockExit 0 ''Main.work()V'') (exResolvedWorld RUNNING))
   \<and> BytecodeStackFrame_scheduleException 0 exNPE (exHandlerFrame False 22) (exResolvedWorld RUNNING)
     = Inr (False, exHandlerFrame False 22, exResolvedWorld RUNNING)
   \<and> BytecodeStackFrame_scheduleException 0 exNPE (exHandlerFrame False 12) (exWorld RUNNING)
     = (case setStatus 0 ASYNC_WAITING None (exWorld RUNNING) of
          Inl x \<Rightarrow> Inl x
        | Inr w1 \<Rightarrow>
            Inr (True, exHandlerFrame False 12,
                 logCall (ResolveClasses 0 0 [''Ljava/io/IOException;'', ''Ljava/lang/Exception;''])
                   w1))
   \<and> getStatus (finalWorld (setStatus 0 ASYNC_WAITING None (exWorld RUNNING))) 0 = ASYNC_WAITING"
proof -
  note found = schedule_exception_handler_selection [THEN conjunct1, rule_format]
  note resolve = schedule_exception_handler_selection [THEN conjunct2, THEN conjunct1,
      rule_format]
  note none = schedule_exception_handler_selection [THEN conjunct2, THEN conjunct2,
      THEN conjunct1, rule_format]
  have a: "BytecodeStackFrame_scheduleException 0 exNPE (exHandlerFrame False 12)
             (exResolvedWorld RUNNING)
     = Inr (True, (exHandlerFrame False 12)\<lparr>opstack := [ObjV exNPE],
              pc := handlerPC \<lparr>startPC = 8, endPC = 20, handlerPC = 30,
                                catchType = ''Ljava/lang/Exception;''\<rparr>\<rparr>,
            exResolvedWorld RUNNING)"
    by (rule found [of _ "[\<lparr>startPC = 0, endPC = 8, handlerPC = 25, catchType = ''<any>''\<rparr>,
        \<lparr>startPC = 8, endPC = 20, handlerPC = 28, catchType = ''Ljava/io/IOException;''\<rparr>]" _ "[]"])
       (simp add: exHandlerFrame_def exHandlerMethod_def exResolvedWorld_def exNPE_def
          handlerMatches_def needsResolution_def)
  have b: "BytecodeStackFrame_scheduleException 0 exNPE (exHandlerFrame True 22)
             (exResolvedWorld RUNNING)
     = Inr (False, exHandlerFrame True 22,
            if isSynchronized (bmethod (exHandlerFrame True 22))
            then logCall (MethodLockExit 0 (fullSignature (bmethod (exHandlerFrame True 22))))
                   (exResolvedWorld RUNNING)
            else exResolvedWorld RUNNING)"
    by (rule none)
       (simp add: exHandlerFrame_def exHandlerMethod_def exResolvedWorld_def exNPE_def
          handlerMatches_def needsResolution_def)
  have c: "BytecodeStackFrame_scheduleException 0 exNPE (exHandlerFrame False 22)
             (exResolvedWorld RUNNING)
     = Inr (False, exHandlerFrame False 22,
            if isSynchronized (bmethod (exHandlerFrame False 22))
            then logCall (MethodLockExit 0 (fullSignature (bmethod (exHandlerFrame False 22))))
                   (exResolvedWorld RUNNING)
            else exResolvedWorld RUNNING)"
    by (rule none)
       (simp add: exHandlerFrame_def exHandlerMethod_def exResolvedWorld_def exNPE_def
          handlerMatches_def needsResolution_def)
  have d: "BytecodeStackFrame_scheduleException 0 exNPE (exHandlerFrame False 12)
             (exWorld RUNNING)
     = (case setStatus 0 ASYNC_WAITING None (exWorld RUNNING) of
          Inl x \<Rightarrow> Inl x
        | Inr w1 \<Rightarrow>
            Inr (True, exHandlerFrame False 12,
                 logCall (ResolveClasses 0 (loader (bmethod (exHandlerFrame False 12)))
                            (handlerClasses (bmethod (exHandlerFrame False 12)))) w1))"
    by (rule resolve [of _ "[\<lparr>startPC = 0, endPC = 8, handlerPC = 25, catchType = ''<any>''\<rparr>]"
          "\<lparr>startPC = 8, endPC = 20, handlerPC = 28, catchType = ''Ljava/io/IOException;''\<rparr>"
          "[\<lparr>startPC = 8, endPC = 20, handlerPC = 30, catchType = ''Ljava/lang/Exception;''\<rparr>]"])
       (simp add: exHandlerFrame_def exHandlerMethod_def exWorld_def exNPE_def
          handlerMatches_def needsResolution_def)
  have hc: "handlerClasses (bmethod (exHandlerFrame False 12))
       = [''Ljava/io/IOException;'', ''Ljava/lang/Exception;'']"
    by code_simp
  have st: "getStatus (finalWorld (setStatus 0 ASYNC_WAITING None (exWorld RUNNING))) 0
       = ASYNC_WAITING"
    by code_simp
  have l: "loader (bmethod (exHandlerFrame False 12)) = 0"
    by (simp add: exHandlerFrame_def exHandlerMethod_def)
  show ?thesis
    using a b c d [unfolded hc l] st by (simp add: exHandlerFrame_def exHandlerMethod_def)
qed

section \<open>The scheduler tick\<close>

lemma jsRem_nonneg: "0 \<le> a \<Longrightarrow> 0 < b \<Longrightarrow> jsRem a b = a mod b"
  by (cases "a = 0") (simp_all add: jsRem_def)

lemma scanThreads_step:
  assumes "- 1 \<le> runningThreadIndex w" and "i < length (threads w)"
  shows "scanThreads i w =
     (if getStatus w (threads w ! scanIndex w i) = RUNNABLE then
        setStatus (threads w ! scanIndex w i) RUNNING None
          (w\<lparr>runningThread := Some (threads w ! scanIndex w i),
             runningThreadIndex := int (scanIndex w i)\<rparr>)
      else scanThreads (i + 1) w)"
proof -
  define n where "n = int (length (threads w))"
  define a where "a = runningThreadIndex w + 1 + int i"
  define r where "r = jsRem a n"
  have n: "0 < n" using assms(2) unfolding n_def by (cases "threads w") simp_all
  have a: "0 \<le> a" using assms(1) by (simp add: a_def)
  have j: "r = a mod n" unfolding r_def by (rule jsRem_nonneg [OF a n])
  have lo: "\<not> r < 0" using pos_mod_sign [OF n, of a] by (simp add: j)
  have hi: "\<not> n \<le> r" using pos_mod_bound [OF n, of a] by (simp add: j)
  have idx: "scanIndex w i = nat r"
    by (simp add: scanIndex_def j a_def n_def)
  have lo': "0 \<le> r"
    using lo by simp
  have "scanThreads i w =
     (let iFixed = r in
        if iFixed < 0 \<or> n \<le> iFixed then Inl (TypeError, w)
        else
          let thread = threads w ! nat iFixed in
          if getStatus w thread = RUNNABLE then
            setStatus thread RUNNING None
              (w\<lparr>runningThread := Some thread, runningThreadIndex := iFixed\<rparr>)
          else scanThreads (i + 1) w)"
    using assms(2) by (subst scanThreads.simps) (simp add: r_def a_def n_def)
  then show ?thesis
    by (simp add: Let_def lo lo' hi idx)
qed

lemma scanThreads_skip:
  assumes "- 1 \<le> runningThreadIndex w" and "k < length (threads w)"
    and "\<forall>j. i \<le> j \<and> j < k \<longrightarrow> getStatus w (threads w ! scanIndex w j) \<noteq> RUNNABLE"
    and "i \<le> k"
  shows "scanThreads i w = scanThreads k w"
  using assms(3) assms(4)
proof (induction "k - i" arbitrary: i)
  case 0
  then show ?case by simp
next
  case (Suc d)
  then have lt: "i < k" by simp
  have "scanThreads i w = scanThreads (i + 1) w"
    using scanThreads_step [OF assms(1), of i] lt assms(2) Suc.prems(1) by simp
  also have "\<dots> = scanThreads k w"
    using Suc.hyps(1) [of "i + 1"] Suc.hyps(2) Suc.prems lt by simp
  finally show ?case .
qed

lemma scanThreads_end: "length (threads w) \<le> i \<Longrightarrow> scanThreads i w = Inr w"
  by (subst scanThreads.simps) simp

lemma scanThreads_none:
  assumes "- 1 \<le> runningThreadIndex w"
    and "\<forall>u \<in> set (threads w). getStatus w u \<noteq> RUNNABLE"
  shows "scanThreads i w = Inr w"
proof (induction "length (threads w) - i" arbitrary: i)
  case 0
  then show ?case by (simp add: scanThreads_end)
next
  case (Suc d)
  then have lt: "i < length (threads w)" by simp
  have n: "0 < int (length (threads w))" using lt by (cases "threads w") simp_all
  have "scanIndex w i < length (threads w)"
    using n by (simp add: scanIndex_def nat_less_iff)
  then have "getStatus w (threads w ! scanIndex w i) \<noteq> RUNNABLE"
    using assms(2) by simp
  then have "scanThreads i w = scanThreads (i + 1) w"
    using scanThreads_step [OF assms(1) lt] by simp
  then show ?case
    using Suc.hyps(1) [of "i + 1"] Suc.hyps(2) by simp
qed

text \<open>
  C7. In a pool with no running thread (and \<open>runningThreadIndex\<close> at least -1, its
  initial value, below which no pool operation takes it), the deferred body of
  \<open>scheduleNextThread\<close> visits the indices \<open>(runningThreadIndex + 1 + k) mod length\<close> for
  \<open>k = 0, 1, ...\<close>, so it starts at \<open>(runningThreadIndex + 1) mod length\<close>. It picks the
  first visited thread that is \<open>RUNNABLE\<close>: it records that thread as \<open>runningThread\<close> and
  its index as \<open>runningThreadIndex\<close>, sets its status to \<open>RUNNING\<close> (its Java field to
  \<open>RUNNABLE\<close>, its monitor to none), and enters the thread's execution loop in exactly
  that state (\<open>entered\<close> below), the thread list and every other thread being as they
  were. What the tick leaves behind is what the loop leaves behind: a picked thread
  without frames (and not immortal) is terminated by its loop at once, through
  \<^verbatim>\<open>exit\<close>. When no thread of the list is \<open>RUNNABLE\<close>, the state is unchanged.
\<close>

theorem schedule_next_thread_round_robin:
  fixes w :: world and k :: nat
  assumes "runningThread w = None" and "- 1 \<le> runningThreadIndex w"
  defines "th \<equiv> threads w ! scanIndex w k"
  defines "entered \<equiv>
     w\<lparr>runningThread := Some th, runningThreadIndex := int (scanIndex w k),
       heap := (heap w)(th := (heap w th)\<lparr>status := RUNNING,
                 jvmThreadObj := (jvmThreadObj (heap w th))\<lparr>threadStatus := JVMTI_RUNNABLE\<rparr>,
                 monitor := None\<rparr>)\<rparr>"
  shows "((\<forall>u \<in> set (threads w). getStatus w u \<noteq> RUNNABLE) \<longrightarrow>
            scheduleNextThreadTick w = Inr w)
       \<and> (k < length (threads w) \<and> getStatus w th = RUNNABLE
            \<and> (\<forall>j < k. getStatus w (threads w ! scanIndex w j) \<noteq> RUNNABLE) \<longrightarrow>
          scheduleNextThreadTick w = run th entered
          \<and> (stack (heap w th) = [] \<and> \<not> immortal (heap w th) \<longrightarrow>
               scheduleNextThreadTick w = exit th (afterRaw th TERMINATED entered)))
       \<and> (0 < length (threads w) \<longrightarrow>
            int (scanIndex w 0) = (runningThreadIndex w + 1) mod int (length (threads w)))"
proof (intro conjI impI)
  assume "\<forall>u \<in> set (threads w). getStatus w u \<noteq> RUNNABLE"
  then show "scheduleNextThreadTick w = Inr w"
    using assms(1) scanThreads_none [OF assms(2), of 0] by (simp add: scheduleNextThreadTick_def)
next
  assume k: "k < length (threads w) \<and> getStatus w th = RUNNABLE
              \<and> (\<forall>j < k. getStatus w (threads w ! scanIndex w j) \<noteq> RUNNABLE)"
  let ?w1 = "w\<lparr>runningThread := Some th, runningThreadIndex := int (scanIndex w k)\<rparr>"
  have s: "scanThreads 0 w = scanThreads k w"
    using scanThreads_skip [OF assms(2), of k 0] k by (simp add: th_def)
  have h: "scanThreads k w = setStatus th RUNNING None ?w1"
    using scanThreads_step [OF assms(2), of k] k by (simp add: th_def)
  have g: "getStatus ?w1 th = RUNNABLE"
    using k by (simp add: getStatus_def)
  have a: "afterRaw th RUNNING ?w1 = entered"
    by (simp add: afterRaw_def updThread_def rawSetStatus_def entered_def)
  show e: "scheduleNextThreadTick w = run th entered"
    using assms(1) s h setStatus_RUNNABLE_to_RUNNING [OF g, of None]
    by (simp add: scheduleNextThreadTick_def a)
  {
    assume b: "stack (heap w th) = [] \<and> \<not> immortal (heap w th)"
    have g2: "getStatus entered th = RUNNING"
      using getStatus_afterRaw [of th RUNNING ?w1] by (simp add: a)
    have st: "stack (heap entered th) = []" "\<not> immortal (heap entered th)"
      using b by (simp_all add: entered_def)
    have r: "run th entered = setStatus th TERMINATED None entered"
      by (subst run.simps) (simp add: st)
    have p: "setStatus th TERMINATED None entered
         = postTransition th None (if getStatus entered th = TERMINATED
              then resurrectThread th (afterRaw th TERMINATED entered)
              else afterRaw th TERMINATED entered)"
      by (rule setStatus_performed_unparked)
         (simp_all add: g2 st validateThreadTransition_def)
    have "postTransition th None (afterRaw th TERMINATED entered)
         = exit th (afterRaw th TERMINATED entered)"
      using getStatus_afterRaw [of th TERMINATED entered] by (simp add: postTransition_def)
    then show "scheduleNextThreadTick w = exit th (afterRaw th TERMINATED entered)"
      using e r p g2 by simp
  }
next
  assume "0 < length (threads w)"
  then show "int (scanIndex w 0) = (runningThreadIndex w + 1) mod int (length (threads w))"
    by (simp add: scanIndex_def)
qed

theorem schedule_next_thread_round_robin_witness:
  "runningThread (exPool [WAITING, RUNNABLE, RUNNABLE] 2) = None
   \<and> - 1 \<le> runningThreadIndex (exPool [WAITING, RUNNABLE, RUNNABLE] 2)
   \<and> scheduleNextThreadTick (exPool [WAITING, RUNNABLE, RUNNABLE] 2)
        = run 1 ((exPool [WAITING, RUNNABLE, RUNNABLE] 2)\<lparr>runningThread := Some 1,
            runningThreadIndex := 1,
            heap := (heap (exPool [WAITING, RUNNABLE, RUNNABLE] 2))
              (1 := (heap (exPool [WAITING, RUNNABLE, RUNNABLE] 2) 1)\<lparr>status := RUNNING,
                 jvmThreadObj := (jvmThreadObj (heap (exPool [WAITING, RUNNABLE, RUNNABLE] 2) 1))
                   \<lparr>threadStatus := JVMTI_RUNNABLE\<rparr>,
                 monitor := None\<rparr>)\<rparr>)
   \<and> calls (finalWorld (scheduleNextThreadTick (exPool [WAITING, RUNNABLE, RUNNABLE] 2)))
        = [NativeCall 1 ''sun/misc/Unsafe.park(ZJ)V'']
   \<and> scheduleNextThreadTick (exPool [WAITING, BLOCKED] 0) = Inr (exPool [WAITING, BLOCKED] 0)
   \<and> runningThread (setStack 1 [] (exPool [WAITING, RUNNABLE] (- 1))) = None
   \<and> - 1 \<le> runningThreadIndex (setStack 1 [] (exPool [WAITING, RUNNABLE] (- 1)))
   \<and> getStatus (finalWorld (scheduleNextThreadTick
        (setStack 1 [] (exPool [WAITING, RUNNABLE] (- 1))))) 1 = TERMINATED
   \<and> runningThread (finalWorld (scheduleNextThreadTick
        (setStack 1 [] (exPool [WAITING, RUNNABLE] (- 1))))) = None
   \<and> runningThreadIndex (finalWorld (scheduleNextThreadTick
        (setStack 1 [] (exPool [WAITING, RUNNABLE] (- 1))))) = 0
   \<and> threads (finalWorld (scheduleNextThreadTick
        (setStack 1 [] (exPool [WAITING, RUNNABLE] (- 1))))) = [0]"
proof -
  let ?w = "exPool [WAITING, RUNNABLE, RUNNABLE] 2"
  let ?v = "exPool [WAITING, BLOCKED] 0"
  let ?u = "setStack 1 [] (exPool [WAITING, RUNNABLE] (- 1))"
  have h1: "runningThread ?w = None" "runningThread ?v = None" "runningThread ?u = None"
    by (simp_all add: exPool_def setStack_def updThread_def)
  have h2: "- 1 \<le> runningThreadIndex ?w" "- 1 \<le> runningThreadIndex ?v"
    "- 1 \<le> runningThreadIndex ?u"
    by (simp_all add: exPool_def setStack_def updThread_def)
  note pick = schedule_next_thread_round_robin [OF h1(1) h2(1), where k = 1,
      THEN conjunct2, THEN conjunct1, THEN mp, THEN conjunct1]
  note none = schedule_next_thread_round_robin [OF h1(2) h2(2), where k = 0,
      THEN conjunct1, THEN mp]
  note fin = schedule_next_thread_round_robin [OF h1(3) h2(3), where k = 1,
      THEN conjunct2, THEN conjunct1, THEN mp, THEN conjunct2, THEN mp]
  have p1: "1 < length (threads ?w)" by code_simp
  have p2: "getStatus ?w (threads ?w ! scanIndex ?w 1) = RUNNABLE" by code_simp
  have p3: "getStatus ?w (threads ?w ! scanIndex ?w 0) \<noteq> RUNNABLE" by code_simp
  have p4: "\<forall>j<1. getStatus ?w (threads ?w ! scanIndex ?w j) \<noteq> RUNNABLE"
    using p3 by simp
  have q1: "threads ?w ! scanIndex ?w 1 = 1" by code_simp
  have q2: "int (scanIndex ?w 1) = 1" by code_simp
  have n: "\<forall>u \<in> set (threads ?v). getStatus ?v u \<noteq> RUNNABLE"
    by code_simp
  have u1: "1 < length (threads ?u)" by code_simp
  have u2: "getStatus ?u (threads ?u ! scanIndex ?u 1) = RUNNABLE" by code_simp
  have u3: "getStatus ?u (threads ?u ! scanIndex ?u 0) \<noteq> RUNNABLE" by code_simp
  have u4: "\<forall>j<1. getStatus ?u (threads ?u ! scanIndex ?u j) \<noteq> RUNNABLE"
    using u3 by simp
  have u5: "stack (heap ?u (threads ?u ! scanIndex ?u 1)) = []
            \<and> \<not> immortal (heap ?u (threads ?u ! scanIndex ?u 1))" by code_simp
  note r = pick [OF conjI [OF p1 conjI [OF p2 p4]], unfolded q1 q2]
  note t = fin [OF conjI [OF u1 conjI [OF u2 u4]] u5]
  have e4: "calls (finalWorld (scheduleNextThreadTick ?w))
        = [NativeCall 1 ''sun/misc/Unsafe.park(ZJ)V'']" by code_simp
  have g1: "getStatus (finalWorld (exit (threads ?u ! scanIndex ?u 1)
       (afterRaw (threads ?u ! scanIndex ?u 1) TERMINATED
         (?u\<lparr>runningThread := Some (threads ?u ! scanIndex ?u 1),
             runningThreadIndex := int (scanIndex ?u 1),
             heap := (heap ?u)(threads ?u ! scanIndex ?u 1 :=
               (heap ?u (threads ?u ! scanIndex ?u 1))\<lparr>status := RUNNING,
                 jvmThreadObj := (jvmThreadObj (heap ?u (threads ?u ! scanIndex ?u 1)))
                   \<lparr>threadStatus := JVMTI_RUNNABLE\<rparr>,
                 monitor := None\<rparr>)\<rparr>)))) 1 = TERMINATED" by code_simp
  have g2: "runningThread (finalWorld (scheduleNextThreadTick ?u)) = None" by code_simp
  have g3: "runningThreadIndex (finalWorld (scheduleNextThreadTick ?u)) = 0" by code_simp
  have g4: "threads (finalWorld (scheduleNextThreadTick ?u)) = [0]" by code_simp
  have g5: "getStatus (finalWorld (scheduleNextThreadTick ?u)) 1 = TERMINATED"
    using g1 unfolding t .
  show ?thesis
    using r none [OF n] h1(1) h1(3) h2(1) h2(3) e4 g5 g2 g3 g4 by simp
qed

section \<open>Throwing an exception\<close>

lemma unwindKeeps_refl [simp]: "unwindKeeps t w w"
  by (simp add: unwindKeeps_def)

lemma unwindKeeps_trans: "unwindKeeps t w w1 \<Longrightarrow> unwindKeeps t w1 w2 \<Longrightarrow> unwindKeeps t w w2"
  by (simp add: unwindKeeps_def)

lemma declines_cong:
  assumes "getResolvedClass w' = getResolvedClass w" and "isCastable w' = isCastable w"
  shows "findHandler w' m c p ehs = findHandler w m c p ehs"
proof (induction ehs)
  case Nil
  show ?case by simp
next
  case (Cons a ehs)
  show ?case
    by (simp only: findHandler.simps assms Cons.IH)
qed

lemma unwindKeeps_frames:
  assumes "unwindKeeps t w w'"
  shows "declines w' e g = declines w e g" "acceptedFrame w' e g = acceptedFrame w e g"
    "awaitsResolution w' e g = awaitsResolution w e g"
proof -
  have c: "\<And>m c p ehs. findHandler w' m c p ehs = findHandler w m c p ehs"
    using assms by (intro declines_cong) (simp_all add: unwindKeeps_def)
  show "declines w' e g = declines w e g" by (cases g) (simp_all add: c)
  show "acceptedFrame w' e g = acceptedFrame w e g" by (cases g) (simp_all add: c)
  show "awaitsResolution w' e g = awaitsResolution w e g" by (cases g) (simp_all add: c)
qed

lemma setStatus_to_ASYNC_WAITING:
  assumes "getStatus w t = RUNNING \<or> getStatus w t = RUNNABLE"
  shows "setStatus t ASYNC_WAITING m w = Inr (threadSuspended t (afterRaw t ASYNC_WAITING w))"
proof -
  have g: "getStatus (afterRaw t ASYNC_WAITING w) t = ASYNC_WAITING"
    by (rule getStatus_afterRaw)
  have "setStatus t ASYNC_WAITING m w = postTransition t m (afterRaw t ASYNC_WAITING w)"
    using assms
    by (subst setStatus_performed_unparked) (auto simp: validateThreadTransition_def)
  then show ?thesis
    using g by (simp add: postTransition_def)
qed

lemma setStatus_ASYNC_WAITING_to_RUNNABLE:
  assumes "getStatus w t = ASYNC_WAITING"
  shows "setStatus t RUNNABLE m w = Inr (threadRunnable t (afterRaw t RUNNABLE w))"
proof -
  have g: "getStatus (afterRaw t RUNNABLE w) t = RUNNABLE"
    by (rule getStatus_afterRaw)
  have "setStatus t RUNNABLE m w = postTransition t m (afterRaw t RUNNABLE w)"
    using assms
    by (subst setStatus_performed_unparked) (auto simp: validateThreadTransition_def)
  then show ?thesis
    using g by (simp add: postTransition_def)
qed

lemma unwindKeeps_basic:
  "unwindKeeps t w (threadSuspended t (afterRaw t s w))"
  "unwindKeeps t w (threadRunnable t (afterRaw t s w))"
  "unwindKeeps t w (logCall (MethodLockExit t x) w)"
  "unwindKeeps t w (logCall (ResolveClasses t l cs) w)"
  by (simp_all add: unwindKeeps_def threadSuspended_def threadRunnable_def scheduleNextThread_def
        afterRaw_def updThread_def rawSetStatus_def logCall_def isDispatch_def)

lemma getStatus_basic:
  "getStatus (threadSuspended t w) u = getStatus w u"
  "getStatus (threadRunnable t w) u = getStatus w u"
  "getStatus (logCall c w) u = getStatus w u"
  by (simp_all add: getStatus_def)

lemma scheduleException_result:
  assumes "getStatus w t = RUNNING \<or> getStatus w t = RUNNABLE"
  shows "\<exists>w'. scheduleException t e g w = Inr (\<not> declines w e g, acceptedFrame w e g, w')
           \<and> unwindKeeps t w w'
           \<and> getStatus w' t = (if awaitsResolution w e g then ASYNC_WAITING else getStatus w t)"
proof (cases g)
  case (Bytecode b)
  show ?thesis
  proof (cases "findHandler w (bmethod b) (getClass e) (pc b) (exceptionHandlers (bmethod b))")
    case (Found h)
    then show ?thesis
      using Bytecode by (simp add: BytecodeStackFrame_scheduleException_def)
  next
    case NeedsResolution
    let ?w1 = "threadSuspended t (afterRaw t ASYNC_WAITING w)"
    have k: "unwindKeeps t w (logCall (ResolveClasses t (loader (bmethod b))
                 (handlerClasses (bmethod b))) ?w1)"
      by (rule unwindKeeps_trans [OF unwindKeeps_basic(1) unwindKeeps_basic(4)])
    show ?thesis
      using Bytecode NeedsResolution k getStatus_afterRaw [of t ASYNC_WAITING w]
      by (simp add: BytecodeStackFrame_scheduleException_def
            setStatus_to_ASYNC_WAITING [OF assms] getStatus_basic)
  next
    case NotFound
    then show ?thesis
      using Bytecode
      by (simp add: BytecodeStackFrame_scheduleException_def unwindKeeps_basic getStatus_basic)
  qed
next
  case (Native n)
  then show ?thesis by simp
next
  case (Internal i)
  then show ?thesis by simp
qed

lemma setStack_simps [simp]:
  "getStatus (setStack t fs w) u = getStatus w u"
  "stack (heap (setStack t fs w) t) = fs"
  "calls (setStack t fs w) = calls w"
  "getResolvedClass (setStack t fs w) = getResolvedClass w"
  "isCastable (setStack t fs w) = isCastable w"
  by (simp_all add: setStack_def getStatus_def updThread_def)

lemma declines_not_awaits: "declines w e g \<Longrightarrow> \<not> awaitsResolution w e g"
  by (cases g) (simp_all split: handlerSearch.splits)

lemma unwind_result:
  assumes "getStatus w t = RUNNING \<or> getStatus w t = RUNNABLE" and "stack (heap w t) = fs"
  shows "\<exists>w'. unwind t e fs w = Inr w'
           \<and> stack (heap w' t) = unwoundStack w e fs
           \<and> getStatus w' t = unwoundStatus w e fs (getStatus w t)
           \<and> filter isDispatch (calls w') = filter isDispatch (calls w)"
  using assms
proof (induction fs arbitrary: w)
  case Nil
  then show ?case by (simp add: unwoundStack_def unwoundStatus_def)
next
  case (Cons g fs)
  obtain w1 where r: "scheduleException t e g w = Inr (\<not> declines w e g, acceptedFrame w e g, w1)"
    and k: "unwindKeeps t w w1"
    and s: "getStatus w1 t = (if awaitsResolution w e g then ASYNC_WAITING else getStatus w t)"
    using scheduleException_result [OF Cons.prems(1), of e g] by blast
  show ?case
  proof (cases "declines w e g")
    case False
    then show ?thesis
      using r k s by (simp add: unwoundStack_def unwoundStatus_def unwindKeeps_def)
  next
    case True
    let ?w2 = "setStack t fs w1"
    have s2: "getStatus ?w2 t = getStatus w t"
      using s declines_not_awaits [OF True] by simp
    have o: "getResolvedClass ?w2 = getResolvedClass w" "isCastable ?w2 = isCastable w"
      using k by (simp_all add: unwindKeeps_def)
    have c: "\<And>m c p ehs. findHandler ?w2 m c p ehs = findHandler w m c p ehs"
      by (intro declines_cong o)
    have d1: "declines ?w2 e = declines w e"
    proof (rule ext)
      fix x show "declines ?w2 e x = declines w e x" by (cases x) (simp_all add: c)
    qed
    have d2: "acceptedFrame ?w2 e = acceptedFrame w e"
    proof (rule ext)
      fix x show "acceptedFrame ?w2 e x = acceptedFrame w e x" by (cases x) (simp_all add: c)
    qed
    have d3: "awaitsResolution ?w2 e = awaitsResolution w e"
    proof (rule ext)
      fix x show "awaitsResolution ?w2 e x = awaitsResolution w e x"
        by (cases x) (simp_all add: c)
    qed
    note d = d1 d2 d3
    have p: "getStatus ?w2 t = RUNNING \<or> getStatus ?w2 t = RUNNABLE"
      using s2 Cons.prems(1) by simp
    obtain w' where u: "unwind t e fs ?w2 = Inr w'"
      and a: "stack (heap w' t) = unwoundStack ?w2 e fs"
      and b: "getStatus w' t = unwoundStatus ?w2 e fs (getStatus ?w2 t)"
      and c: "filter isDispatch (calls w') = filter isDispatch (calls ?w2)"
      using Cons.IH [OF p] by auto
    have e1: "unwoundStack ?w2 e fs = unwoundStack w e (g # fs)"
      unfolding unwoundStack_def d using True by simp
    have e2: "unwoundStatus ?w2 e fs (getStatus ?w2 t) = unwoundStatus w e (g # fs) (getStatus w t)"
      unfolding unwoundStatus_def d s2 using True by simp
    have e3: "filter isDispatch (calls ?w2) = filter isDispatch (calls w)"
      using k by (simp add: unwindKeeps_def)
    show ?thesis
      using True r u a b c e1 e2 e3 by simp
  qed
qed

lemma unwound_cong:
  assumes "getResolvedClass w' = getResolvedClass w" and "isCastable w' = isCastable w"
  shows "declines w' e = declines w e" "unwoundStack w' e = unwoundStack w e"
    "unwoundStatus w' e = unwoundStatus w e"
proof -
  have c: "\<And>m c p ehs. findHandler w' m c p ehs = findHandler w m c p ehs"
    by (intro declines_cong assms)
  show d1: "declines w' e = declines w e"
  proof (rule ext)
    fix x show "declines w' e x = declines w e x" by (cases x) (simp_all add: c)
  qed
  have d2: "acceptedFrame w' e = acceptedFrame w e"
  proof (rule ext)
    fix x show "acceptedFrame w' e x = acceptedFrame w e x" by (cases x) (simp_all add: c)
  qed
  have d3: "awaitsResolution w' e = awaitsResolution w e"
  proof (rule ext)
    fix x show "awaitsResolution w' e x = awaitsResolution w e x" by (cases x) (simp_all add: c)
  qed
  show "unwoundStack w' e = unwoundStack w e"
    unfolding unwoundStack_def d1 d2 by (rule refl)
  show "unwoundStatus w' e = unwoundStatus w e"
    unfolding unwoundStatus_def d1 d3 by (rule refl)
qed

lemma unwoundStack_Nil: "unwoundStack w e fs = [] \<longleftrightarrow> list_all (declines w e) fs"
proof (cases "dropWhile (declines w e) fs")
  case Nil
  have a: "\<forall>x \<in> set fs. declines w e x"
    using Nil dropWhile_eq_Nil_conv [of "declines w e" fs] by blast
  have b: "unwoundStack w e fs = []"
    unfolding unwoundStack_def Nil by simp
  show ?thesis
    using a b by (simp add: list_all_iff)
next
  case (Cons g rest)
  have a: "\<not> (\<forall>x \<in> set fs. declines w e x)"
    using Cons dropWhile_eq_Nil_conv [of "declines w e" fs] by auto
  have b: "unwoundStack w e fs \<noteq> []"
    unfolding unwoundStack_def Cons by simp
  show ?thesis
    using a b by (simp add: list_all_iff)
qed

lemma setStatus_RUNNABLE_in_throw:
  assumes "getStatus w t = RUNNING \<or> getStatus w t = RUNNABLE \<or> getStatus w t = ASYNC_WAITING"
  shows "setStatus t RUNNABLE None w =
     Inr (if getStatus w t = ASYNC_WAITING then threadRunnable t (afterRaw t RUNNABLE w) else w)"
proof (cases "getStatus w t = ASYNC_WAITING")
  case True
  then show ?thesis
    by (simp add: setStatus_ASYNC_WAITING_to_RUNNABLE)
next
  case False
  then show ?thesis
    using assms by (auto simp: setStatus_eq)
qed

text \<open>
  C6, as the code has it. On a thread that is \<open>RUNNING\<close>, \<open>RUNNABLE\<close> or \<open>ASYNC_WAITING\<close>
  with a non-empty stack, \<open>throwException\<close> returns. It pops the top frame exactly when
  that frame is \<open>INTERNAL\<close>, then calls \<open>setStatus(RUNNABLE)\<close>, which makes an
  \<open>ASYNC_WAITING\<close> thread \<open>RUNNABLE\<close> and leaves a \<open>RUNNING\<close> or \<open>RUNNABLE\<close> thread as it is.
  Then it pops every leading frame that answers \<open>false\<close> to \<open>scheduleException\<close> and
  stops at the first frame that answers \<open>true\<close>, which stays on top as that call set it
  up (the thread is \<open>ASYNC_WAITING\<close> when that frame waits for class resolution). The
  uncaught exception is dispatched exactly once when every frame answered \<open>false\<close> (the
  stack is then empty), and not at all otherwise.
\<close>

theorem throw_exception_unwinds:
  fixes w :: world and e :: java_lang_Throwable
  assumes "getStatus w t = RUNNING \<or> getStatus w t = RUNNABLE \<or> getStatus w t = ASYNC_WAITING"
    and "stack (heap w t) = f # fs"
  defines "fs1 \<equiv> (if frameType f = INTERNAL then fs else f # fs)"
  defines "w' \<equiv> finalWorld (throwException t e w)"
  shows "returns (throwException t e w)
       \<and> setStatus t RUNNABLE None (setStack t fs1 w) =
           Inr (if getStatus w t = ASYNC_WAITING
                then threadRunnable t (afterRaw t RUNNABLE (setStack t fs1 w))
                else setStack t fs1 w)
       \<and> stack (heap w' t) =
           (case dropWhile (declines w e) fs1 of
              [] \<Rightarrow> [] | g # rest \<Rightarrow> acceptedFrame w e g # rest)
       \<and> getStatus w' t =
           (let s = (if getStatus w t = RUNNING then RUNNING else RUNNABLE) in
            case dropWhile (declines w e) fs1 of
              [] \<Rightarrow> s
            | g # rest \<Rightarrow> if awaitsResolution w e g then ASYNC_WAITING else s)
       \<and> filter isDispatch (calls w') =
           filter isDispatch (calls w)
             @ (if list_all (declines w e) fs1 then [DispatchUncaughtException t e] else [])"
proof -
  let ?w0 = "setStack t fs1 w"
  let ?w1 = "if getStatus w t = ASYNC_WAITING
             then threadRunnable t (afterRaw t RUNNABLE ?w0) else ?w0"
  have st0: "getStatus ?w0 t = RUNNING \<or> getStatus ?w0 t = RUNNABLE
             \<or> getStatus ?w0 t = ASYNC_WAITING"
    using assms(1) by simp
  have a: "setStatus t RUNNABLE None ?w0 = Inr ?w1"
    using setStatus_RUNNABLE_in_throw [OF st0] by simp
  have k: "unwindKeeps t ?w0 ?w1"
    by (simp add: unwindKeeps_basic)
  have s1: "getStatus ?w1 t = (if getStatus w t = RUNNING then RUNNING else RUNNABLE)"
    using assms(1) getStatus_afterRaw [of t RUNNABLE ?w0] by (auto simp: getStatus_basic)
  have p1: "getStatus ?w1 t = RUNNING \<or> getStatus ?w1 t = RUNNABLE"
    unfolding s1 by simp
  have p2: "stack (heap ?w1 t) = fs1"
    using k by (simp add: unwindKeeps_def)
  have o: "getResolvedClass ?w1 = getResolvedClass w" "isCastable ?w1 = isCastable w"
    using k by (simp_all add: unwindKeeps_def)
  have c1: "filter isDispatch (calls ?w1) = filter isDispatch (calls w)"
    using k by (simp add: unwindKeeps_def)
  obtain w2 where u: "unwind t e fs1 ?w1 = Inr w2"
    and u1: "stack (heap w2 t) = unwoundStack ?w1 e fs1"
    and u2: "getStatus w2 t = unwoundStatus ?w1 e fs1 (getStatus ?w1 t)"
    and u3: "filter isDispatch (calls w2) = filter isDispatch (calls ?w1)"
    using unwind_result [OF p1 p2, of e] by blast
  note cg = unwound_cong [OF o, of e]
  have v1: "stack (heap w2 t) = unwoundStack w e fs1"
    using u1 by (simp only: cg)
  have v2: "getStatus w2 t = unwoundStatus w e fs1 (if getStatus w t = RUNNING then RUNNING else RUNNABLE)"
    using u2 by (simp only: cg s1)
  have v3: "filter isDispatch (calls w2) = filter isDispatch (calls w)"
    using u3 c1 by simp
  have g: "\<not> (getStatus w t \<noteq> RUNNING \<and> getStatus w t \<noteq> RUNNABLE
              \<and> getStatus w t \<noteq> ASYNC_WAITING)"
    using assms(1) by blast
  have te0: "throwException t e w =
      (case (case setStatus t RUNNABLE None (setStack t fs1 w) of
               Inl x \<Rightarrow> Inl x | Inr w1 \<Rightarrow> unwind t e fs1 w1) of
         Inl x \<Rightarrow> Inl x
       | Inr w2 \<Rightarrow>
           if stack (heap w2 t) = [] then handleUncaughtException t e w2 else Inr w2)"
    unfolding throwException_def fs1_def Let_def assms(2)
    by (simp only: g if_False list.case)
  have te: "throwException t e w =
      (if stack (heap w2 t) = [] then handleUncaughtException t e w2 else Inr w2)"
    by (simp only: te0 a u sum.case)
  have r: "returns (throwException t e w)"
    by (simp add: te returns_def handleUncaughtException_def)
  have f1: "stack (heap w' t) = unwoundStack w e fs1"
    using v1 by (simp add: w'_def te handleUncaughtException_def)
  have f2: "getStatus w' t =
      unwoundStatus w e fs1 (if getStatus w t = RUNNING then RUNNING else RUNNABLE)"
    using v2 by (simp add: w'_def te handleUncaughtException_def getStatus_basic)
  have f3: "filter isDispatch (calls w') =
           filter isDispatch (calls w)
             @ (if list_all (declines w e) fs1 then [DispatchUncaughtException t e] else [])"
    using v3 v1 unwoundStack_Nil [of w e fs1]
    by (simp add: w'_def te handleUncaughtException_def logCall_def isDispatch_def)
  show ?thesis
    using r a f1 f2 f3 by (simp add: unwoundStack_def unwoundStatus_def Let_def)
qed

text \<open>
  C6 as the specification states it fails on a \<open>RUNNING\<close> thread: \<open>setStatus(RUNNABLE)\<close>
  is ignored, so
  the status is \<open>RUNNING\<close> after that call and after \<open>throwException\<close>, here with a frame
  that catches the exception.
\<close>

theorem throw_exception_unwinds_counterexample:
  "getStatus (exThrowWorld RUNNING [Bytecode (exHandlerFrame False 3)]) 0 = RUNNING
   \<and> stack (heap (exThrowWorld RUNNING [Bytecode (exHandlerFrame False 3)]) 0)
        = [Bytecode (exHandlerFrame False 3)]
   \<and> returns (setStatus 0 RUNNABLE None (exThrowWorld RUNNING [Bytecode (exHandlerFrame False 3)]))
   \<and> getStatus (finalWorld (setStatus 0 RUNNABLE None
          (exThrowWorld RUNNING [Bytecode (exHandlerFrame False 3)]))) 0 = RUNNING
   \<and> returns (throwException 0 exNPE (exThrowWorld RUNNING [Bytecode (exHandlerFrame False 3)]))
   \<and> getStatus (finalWorld (throwException 0 exNPE
          (exThrowWorld RUNNING [Bytecode (exHandlerFrame False 3)]))) 0 = RUNNING
   \<and> stack (heap (finalWorld (throwException 0 exNPE
          (exThrowWorld RUNNING [Bytecode (exHandlerFrame False 3)]))) 0)
        = [Bytecode ((exHandlerFrame False 3)\<lparr>opstack := [ObjV exNPE], pc := 25\<rparr>)]"
  by code_simp

theorem throw_exception_unwinds_witness:
  "getStatus (exThrowWorld ASYNC_WAITING
       [exInternal, exNative, Bytecode (exHandlerFrame True 22), Bytecode (exHandlerFrame False 12)]) 0
     = ASYNC_WAITING
   \<and> returns (throwException 0 exNPE (exThrowWorld ASYNC_WAITING
       [exInternal, exNative, Bytecode (exHandlerFrame True 22), Bytecode (exHandlerFrame False 12)]))
   \<and> stack (heap (finalWorld (throwException 0 exNPE (exThrowWorld ASYNC_WAITING
       [exInternal, exNative, Bytecode (exHandlerFrame True 22), Bytecode (exHandlerFrame False 12)]))) 0)
     = [Bytecode ((exHandlerFrame False 12)\<lparr>opstack := [ObjV exNPE], pc := 30\<rparr>)]
   \<and> getStatus (finalWorld (throwException 0 exNPE (exThrowWorld ASYNC_WAITING
       [exInternal, exNative, Bytecode (exHandlerFrame True 22), Bytecode (exHandlerFrame False 12)]))) 0
     = RUNNABLE
   \<and> filter isDispatch (calls (finalWorld (throwException 0 exNPE (exThrowWorld ASYNC_WAITING
       [exInternal, exNative, Bytecode (exHandlerFrame True 22), Bytecode (exHandlerFrame False 12)]))))
     = []
   \<and> getStatus (exThrowWorld RUNNABLE [exNative, Bytecode (exHandlerFrame False 22)]) 0 = RUNNABLE
   \<and> stack (heap (finalWorld (throwException 0 exNPE
         (exThrowWorld RUNNABLE [exNative, Bytecode (exHandlerFrame False 22)]))) 0) = []
   \<and> filter isDispatch (calls (finalWorld (throwException 0 exNPE
         (exThrowWorld RUNNABLE [exNative, Bytecode (exHandlerFrame False 22)]))))
     = [DispatchUncaughtException 0 exNPE]"
proof -
  let ?A = "exThrowWorld ASYNC_WAITING
       [exInternal, exNative, Bytecode (exHandlerFrame True 22), Bytecode (exHandlerFrame False 12)]"
  let ?B = "exThrowWorld RUNNABLE [exNative, Bytecode (exHandlerFrame False 22)]"
  have sA: "getStatus ?A 0 = ASYNC_WAITING" by code_simp
  have sB: "getStatus ?B 0 = RUNNABLE" by code_simp
  have hA: "getStatus ?A 0 = RUNNING \<or> getStatus ?A 0 = RUNNABLE \<or> getStatus ?A 0 = ASYNC_WAITING"
    using sA by simp
  have hB: "getStatus ?B 0 = RUNNING \<or> getStatus ?B 0 = RUNNABLE \<or> getStatus ?B 0 = ASYNC_WAITING"
    using sB by simp
  have kA: "stack (heap ?A 0) = exInternal
      # [exNative, Bytecode (exHandlerFrame True 22), Bytecode (exHandlerFrame False 12)]"
    by (simp add: exThrowWorld_def)
  have kB: "stack (heap ?B 0) = exNative # [Bytecode (exHandlerFrame False 22)]"
    by (simp add: exThrowWorld_def)
  have tI: "frameType exInternal = INTERNAL" "frameType exNative \<noteq> INTERNAL"
    by (simp_all add: exInternal_def exNative_def)
  have d: "declines ?A exNPE exNative" "declines ?A exNPE (Bytecode (exHandlerFrame True 22))"
    "\<not> declines ?A exNPE (Bytecode (exHandlerFrame False 12))"
    "declines ?B exNPE exNative" "declines ?B exNPE (Bytecode (exHandlerFrame False 22))"
    by code_simp+
  have a: "acceptedFrame ?A exNPE (Bytecode (exHandlerFrame False 12))
      = Bytecode ((exHandlerFrame False 12)\<lparr>opstack := [ObjV exNPE], pc := 30\<rparr>)"
    by code_simp
  have r: "\<not> awaitsResolution ?A exNPE (Bytecode (exHandlerFrame False 12))"
    by code_simp
  have cA: "calls ?A = []" "calls ?B = []"
    by (simp_all add: exThrowWorld_def exResolvedWorld_def exWorld_def)
  note TA = throw_exception_unwinds [OF hA kA, of exNPE]
  note TB = throw_exception_unwinds [OF hB kB, of exNPE]
  show ?thesis
    using TA [THEN conjunct1] TA [THEN conjunct2, THEN conjunct2]
      TB [THEN conjunct2, THEN conjunct2]
    by (simp add: sA sB tI d a r cA
          del: declines.simps acceptedFrame.simps awaitsResolution.simps)
qed

section \<open>Handler classes that fail to resolve\<close>

lemma throwException_awaiting:
  assumes "getStatus w t = RUNNING \<or> getStatus w t = RUNNABLE \<or> getStatus w t = ASYNC_WAITING"
    and "stack (heap w t) = Bytecode b # fs"
    and "findHandler w (bmethod b) (getClass e) (pc b) (exceptionHandlers (bmethod b))
           = NeedsResolution"
  shows "\<exists>w'. throwException t e w = Inr w'
           \<and> getStatus w' t = ASYNC_WAITING
           \<and> stack (heap w' t) = Bytecode b # fs
           \<and> getResolvedClass w' = getResolvedClass w \<and> isCastable w' = isCastable w
           \<and> resolveRequests w' = resolveRequests w
                @ [ResolveClasses t (loader (bmethod b)) (handlerClasses (bmethod b))]"
proof -
  let ?fs1 = "Bytecode b # fs"
  let ?w0 = "setStack t ?fs1 w"
  define w1 where "w1 = (if getStatus w t = ASYNC_WAITING
             then threadRunnable t (afterRaw t RUNNABLE ?w0) else ?w0)"
  define w2 where "w2 = logCall (ResolveClasses t (loader (bmethod b)) (handlerClasses (bmethod b)))
               (threadSuspended t (afterRaw t ASYNC_WAITING w1))"
  define w3 where "w3 = setStack t ?fs1 w2"
  have st0: "getStatus ?w0 t = RUNNING \<or> getStatus ?w0 t = RUNNABLE
             \<or> getStatus ?w0 t = ASYNC_WAITING"
    using assms(1) by simp
  have a: "setStatus t RUNNABLE None ?w0 = Inr w1"
    using setStatus_RUNNABLE_in_throw [OF st0] by (simp add: w1_def)
  have k: "unwindKeeps t ?w0 w1"
    by (simp add: unwindKeeps_basic w1_def)
  have p1: "getStatus w1 t = RUNNING \<or> getStatus w1 t = RUNNABLE"
    using assms(1) getStatus_afterRaw [of t RUNNABLE ?w0] by (auto simp: getStatus_basic w1_def)
  have o: "getResolvedClass w1 = getResolvedClass w" "isCastable w1 = isCastable w"
    using k by (simp_all add: unwindKeeps_def)
  have c1: "calls w1 = calls w"
    by (simp add: threadRunnable_def scheduleNextThread_def afterRaw_def updThread_def
          rawSetStatus_def setStack_def w1_def)
  have fh: "findHandler w1 (bmethod b) (getClass e) (pc b) (exceptionHandlers (bmethod b))
           = NeedsResolution"
    using declines_cong [OF o] assms(3) by simp
  have se: "scheduleException t e (Bytecode b) w1 = Inr (True, Bytecode b, w2)"
    by (simp add: BytecodeStackFrame_scheduleException_def fh
          setStatus_to_ASYNC_WAITING [OF p1] w2_def)
  have u: "unwind t e ?fs1 w1 = Inr w3"
    by (simp add: se w3_def del: scheduleException.simps)
  have g: "\<not> (getStatus w t \<noteq> RUNNING \<and> getStatus w t \<noteq> RUNNABLE
              \<and> getStatus w t \<noteq> ASYNC_WAITING)"
    using assms(1) by blast
  have ft: "(frameType (Bytecode b) = INTERNAL) = False"
    by simp
  have te0: "throwException t e w =
      (case (case setStatus t RUNNABLE None ?w0 of
               Inl x \<Rightarrow> Inl x | Inr w1 \<Rightarrow> unwind t e ?fs1 w1) of
         Inl x \<Rightarrow> Inl x
       | Inr w2 \<Rightarrow>
           if stack (heap w2 t) = [] then handleUncaughtException t e w2 else Inr w2)"
    unfolding throwException_def Let_def assms(2)
    by (simp only: g if_False list.case ft)
  have s3: "stack (heap w3 t) = ?fs1"
    by (simp add: w3_def)
  have te: "throwException t e w = Inr w3"
    by (simp only: te0 a u sum.case s3) simp
  have r1: "getStatus w3 t = ASYNC_WAITING"
    using getStatus_afterRaw [of t ASYNC_WAITING w1] by (simp add: getStatus_basic w3_def w2_def)
  have r2: "getResolvedClass w3 = getResolvedClass w \<and> isCastable w3 = isCastable w"
    using o
    by (simp add: w3_def w2_def logCall_def threadSuspended_def scheduleNextThread_def
          afterRaw_def updThread_def rawSetStatus_def)
  have r3: "resolveRequests w3 = resolveRequests w
                @ [ResolveClasses t (loader (bmethod b)) (handlerClasses (bmethod b))]"
    using c1
    by (simp add: resolveRequests_def isResolveRequest_def logCall_def threadSuspended_def
          scheduleNextThread_def afterRaw_def updThread_def rawSetStatus_def w3_def w2_def
          setStack_def)
  show ?thesis
    using te r1 r2 r3 s3 by blast
qed

lemma failedResolutions_requests:
  assumes "getStatus w t = RUNNING \<or> getStatus w t = RUNNABLE \<or> getStatus w t = ASYNC_WAITING"
    and "stack (heap w t) = Bytecode b # fs"
    and "\<And>c. findHandler w (bmethod b) c (pc b) (exceptionHandlers (bmethod b))
           = NeedsResolution"
  shows "\<exists>w'. failedResolutions t es w = Inr w'
           \<and> stack (heap w' t) = Bytecode b # fs
           \<and> resolveRequests w' = resolveRequests w
                @ replicate (length es)
                    (ResolveClasses t (loader (bmethod b)) (handlerClasses (bmethod b)))"
  using assms
proof (induction es arbitrary: w)
  case Nil
  then show ?case by simp
next
  case (Cons e es)
  obtain w1 where t1: "throwException t e w = Inr w1"
    and s1: "getStatus w1 t = ASYNC_WAITING"
    and k1: "stack (heap w1 t) = Bytecode b # fs"
    and o1: "getResolvedClass w1 = getResolvedClass w" "isCastable w1 = isCastable w"
    and r1: "resolveRequests w1 = resolveRequests w
                @ [ResolveClasses t (loader (bmethod b)) (handlerClasses (bmethod b))]"
    using throwException_awaiting [OF Cons.prems(1) Cons.prems(2) Cons.prems(3), of e] by blast
  have p: "getStatus w1 t = RUNNING \<or> getStatus w1 t = RUNNABLE \<or> getStatus w1 t = ASYNC_WAITING"
    using s1 by simp
  have f: "\<And>c. findHandler w1 (bmethod b) c (pc b) (exceptionHandlers (bmethod b))
           = NeedsResolution"
    using declines_cong [OF o1] Cons.prems(3) by simp
  obtain w' where t2: "failedResolutions t es w1 = Inr w'"
    and k2: "stack (heap w' t) = Bytecode b # fs"
    and r2: "resolveRequests w' = resolveRequests w1
                @ replicate (length es)
                    (ResolveClasses t (loader (bmethod b)) (handlerClasses (bmethod b)))"
    using Cons.IH [OF p k1 f] by blast
  show ?case
    using t1 t2 k2 r1 r2 by simp
qed

text \<open>
  C3. The claim asks that the catch types whose resolution failed be remembered for
  the code of the frame, so that resolution is not retried without end. The source
  keeps no such record (its comment on the rethrow says so): on a frame whose handler
  entry names a class the loader cannot resolve, every exception that the failing
  resolution throws on the thread finds the entry unresolved again and asks for the
  same resolution again. After any number of failures, that many identical requests
  have been made and the frame is as it was.
\<close>

theorem schedule_exception_retries_unbounded:
  "returns (failedResolutions 0 es exUnresolvedWorld)
   \<and> stack (heap (finalWorld (failedResolutions 0 es exUnresolvedWorld)) 0)
        = [Bytecode exMissingFrame]
   \<and> resolveRequests (finalWorld (failedResolutions 0 es exUnresolvedWorld))
        = replicate (length es) (ResolveClasses 0 0 [''LMissing;''])"
proof -
  have "getStatus exUnresolvedWorld 0 = RUNNING"
    by code_simp
  then have h1: "getStatus exUnresolvedWorld 0 = RUNNING \<or> getStatus exUnresolvedWorld 0 = RUNNABLE
      \<or> getStatus exUnresolvedWorld 0 = ASYNC_WAITING"
    by simp
  have h2: "stack (heap exUnresolvedWorld 0) = Bytecode exMissingFrame # []"
    by (simp add: exUnresolvedWorld_def)
  have h3: "\<And>c. findHandler exUnresolvedWorld (bmethod exMissingFrame) c (pc exMissingFrame)
              (exceptionHandlers (bmethod exMissingFrame)) = NeedsResolution"
    by (simp add: exUnresolvedWorld_def exMissingFrame_def exWorld_def)
  have r0: "resolveRequests exUnresolvedWorld = []"
    by (simp add: resolveRequests_def exUnresolvedWorld_def exWorld_def)
  have hc: "handlerClasses (bmethod exMissingFrame) = [''LMissing;'']"
    "loader (bmethod exMissingFrame) = 0"
    by (simp_all add: handlerClasses_def exMissingFrame_def)
  obtain w' where "failedResolutions 0 es exUnresolvedWorld = Inr w'"
    and "stack (heap w' 0) = [Bytecode exMissingFrame]"
    and "resolveRequests w' = replicate (length es) (ResolveClasses 0 0 [''LMissing;''])"
    using failedResolutions_requests [OF h1 h2 h3, of es] r0 hc by auto
  then show ?thesis
    by (simp add: returns_def)
qed

section \<open>The pool's bookkeeping is kept\<close>

text \<open>
  The statement on the scheduler tick assumes \<open>runningThreadIndex\<close> to be at least -1.
  That holds in a fresh pool and is kept by every operation modelled here, so it holds
  in every state the pool reaches.
\<close>

lemma indexOf_bounds: "- 1 \<le> indexOf xs x" "x \<in> set xs \<Longrightarrow> 0 \<le> indexOf xs x"
  by (induction xs) (auto simp: Let_def)

lemma indexOf_neg_iff: "indexOf xs x < 0 \<longleftrightarrow> x \<notin> set xs"
  using indexOf_bounds(2) [of x xs] by (induction xs) (auto simp: Let_def)

lemma poolInv_cong:
  "threads w' = threads w \<Longrightarrow> runningThread w' = runningThread w \<Longrightarrow>
   runningThreadIndex w' = runningThreadIndex w \<Longrightarrow> poolInv w' = poolInv w"
  by (simp add: poolInv_def split: option.split)

lemma poolInv_basic:
  "poolInv (logCall c w) = poolInv w"
  "poolInv (scheduleNextThread w) = poolInv w"
  "poolInv (updThread t f w) = poolInv w"
  "poolInv (rawSetStatus t s w) = poolInv w"
  "poolInv (setParkCount t n w) = poolInv w"
  "poolInv (setStack t fs w) = poolInv w"
  "poolInv (afterRaw t s w) = poolInv w"
  by (rule poolInv_cong;
      simp add: logCall_def scheduleNextThread_def updThread_def rawSetStatus_def
        setParkCount_def setStack_def afterRaw_def)+

lemma poolInv_pool:
  assumes "poolInv w"
  shows "poolInv (threadRunnable t w)" "poolInv (threadSuspended t w)"
    "poolInv (addThread t w)" "poolInv (resurrectThread t w)"
  using assms
  by (auto simp: poolInv_def threadRunnable_def threadSuspended_def scheduleNextThread_def
        addThread_def resurrectThread_def split: option.splits)

lemma poolInv_threadTerminated:
  assumes "poolInv w"
  shows "poolInv (finalWorld (threadTerminated t w))"
proof (cases "indexOf (threads w) t < 0")
  case True
  then show ?thesis using assms by (simp add: threadTerminated_def)
next
  case False
  show ?thesis
  proof (cases "runningThread w = Some t")
    case True
    then show ?thesis
      using False assms
      by (simp add: threadTerminated_def Let_def poolInv_def logCall_def scheduleNextThread_def
            split: option.split)
  next
    case nr: False
    show ?thesis
    proof (cases "runningThread w")
      case None
      then show ?thesis
        using False by (simp add: threadTerminated_def Let_def poolInv_def split: option.split)
    next
      case (Some r)
      then have "r \<in> set (remove1 t (threads w))"
        using assms nr by (auto simp: poolInv_def)
      then have "0 \<le> indexOf (remove1 t (threads w)) r"
        by (rule indexOf_bounds(2))
      then show ?thesis
        using False nr Some \<open>r \<in> set (remove1 t (threads w))\<close>
        by (simp add: threadTerminated_def Let_def poolInv_def split: option.split)
    qed
  qed
qed

lemma poolInv_exit: "poolInv w \<Longrightarrow> poolInv (finalWorld (exit t w))"
  using poolInv_threadTerminated
  by (simp add: exit_def phase2_def Let_def poolInv_basic)

lemma poolInv_postTransition_idle:
  "poolInv w \<Longrightarrow> getStatus w t \<noteq> RUNNING \<Longrightarrow>
   poolInv (finalWorld (postTransition t m w))"
  by (cases "getStatus w t"; cases m;
      simp add: postTransition_def suspendOnMonitor_def poolInv_pool poolInv_basic poolInv_exit)

lemma poolInv_setStatus_idle:
  assumes "poolInv w" and "s = TERMINATED \<or> s = ASYNC_WAITING"
  shows "poolInv (finalWorld (setStatus t s m w))"
proof (cases "getStatus w t = PARKED")
  case True
  then show ?thesis
    using assms by (auto simp: setStatus_parked_other)
next
  case False
  have a: "\<And>b. poolInv (let w1 = updThread t (\<lambda>th. th\<lparr>monitor := None\<rparr>) (rawSetStatus t s w) in
             if b then resurrectThread t w1 else w1)"
    using assms(1) by (simp add: Let_def poolInv_basic poolInv_pool)
  have "\<And>b. poolInv (finalWorld (postTransition t m
          (let w1 = updThread t (\<lambda>th. th\<lparr>monitor := None\<rparr>) (rawSetStatus t s w) in
           if b then resurrectThread t w1 else w1)))"
    using assms(2) by (intro poolInv_postTransition_idle a) (auto simp: getStatus_pre)
  then show ?thesis
    using False assms(1) by (simp add: setStatus_unparked)
qed

lemma poolInv_run: "poolInv w \<Longrightarrow> poolInv (finalWorld (run t w))"
proof -
  assume p: "poolInv w"
  have i: "\<And>f. poolInv (finalWorld (InternalStackFrame_run t f w))"
  proof -
    fix f
    have "poolInv (finalWorld (setStatus t ASYNC_WAITING None (framePop t w)))"
      using p by (intro poolInv_setStatus_idle) (simp_all add: framePop_def poolInv_basic)
    then show "poolInv (finalWorld (InternalStackFrame_run t f w))"
      by (cases "setStatus t ASYNC_WAITING None (framePop t w)")
         (auto simp: InternalStackFrame_run.simps poolInv_basic)
  qed
  have b: "\<And>f below. poolInv (finalWorld (BytecodeStackFrame_run t f below w))"
    using p by (simp add: BytecodeStackFrame_run_def Let_def poolInv_basic)
  have n: "\<And>f. poolInv (finalWorld (NativeStackFrame_run t f w))"
    using p by (simp add: NativeStackFrame_run_def poolInv_basic)
  have e: "poolInv (finalWorld (setStatus t TERMINATED None w))"
    using p by (intro poolInv_setStatus_idle) simp_all
  show ?thesis
    by (subst run.simps) (simp add: p i b n e split: list.split IStackFrame.split)
qed

lemma poolInv_postTransition: "poolInv w \<Longrightarrow> poolInv (finalWorld (postTransition t m w))"
proof (cases "getStatus w t = RUNNING")
  case True
  assume "poolInv w"
  then show ?thesis using True by (simp add: postTransition_def poolInv_run)
next
  case False
  assume "poolInv w"
  then show ?thesis using False by (rule poolInv_postTransition_idle)
qed

lemma poolInv_setStatus_unparked:
  assumes "poolInv w" and "getStatus w t \<noteq> PARKED"
  shows "poolInv (finalWorld (setStatus t s m w))"
proof -
  have a: "poolInv (afterRaw t s w)"
    using assms(1) by (simp add: poolInv_basic)
  have b: "poolInv (resurrectThread t (afterRaw t s w))"
    using a by (rule poolInv_pool)
  show ?thesis
    using assms a b poolInv_postTransition
    by (simp add: setStatus_unparked [OF assms(2)] Let_def afterRaw_def)
qed

lemma poolInv_asyncReturn:
  assumes "poolInv w"
  shows "poolInv (finalWorld (asyncReturn t rv rv2 w))"
proof -
  have step: "\<And>x. getStatus w t \<noteq> PARKED \<Longrightarrow>
      poolInv (finalWorld (setStatus t RUNNABLE None (updThread t (\<lambda>th. th\<lparr>stack := x\<rparr>) w)))"
    using assms by (intro poolInv_setStatus_unparked) (simp_all add: poolInv_basic)
  show ?thesis
    apply (subst asyncReturn.simps)
    apply (simp add: Let_def assms poolInv_basic split: list.split sum.split)
    apply (intro conjI impI allI)
      apply (simp_all add: step)
    done
qed

lemma poolInv_setStatus:
  assumes "poolInv w"
  shows "poolInv (finalWorld (setStatus t s m w))"
proof (cases "getStatus w t = PARKED")
  case False
  then show ?thesis using assms by (simp add: poolInv_setStatus_unparked)
next
  case True
  let ?w1 = "updThread t (\<lambda>th. th\<lparr>monitor := None\<rparr>) (rawSetStatus t s w)"
  have f1: "poolInv ?w1"
    using assms by (simp add: poolInv_basic)
  have f2: "poolInv (finalWorld (asyncReturn t None None ?w1))"
    by (rule poolInv_asyncReturn [OF f1])
  have f3: "\<And>v. asyncReturn t None None ?w1 = Inr v \<Longrightarrow>
       poolInv (finalWorld (postTransition t m v))"
    using f2 by (auto intro: poolInv_postTransition)
  have f4: "\<And>e v. asyncReturn t None None ?w1 = Inl (e, v) \<Longrightarrow> poolInv v"
    using f2 by auto
  show ?thesis
    using True f3 f4 assms
    by (simp add: setStatus_eq Let_def split: sum.split prod.split)
qed

lemma poolInv_scanThreads:
  assumes "poolInv w"
  shows "poolInv (finalWorld (scanThreads i w))"
proof (induction "length (threads w) - i" arbitrary: i)
  case 0
  then show ?case using assms by (simp add: scanThreads_end)
next
  case (Suc d)
  then have lt: "i < length (threads w)" by simp
  have m: "- 1 \<le> runningThreadIndex w"
    using assms by (simp add: poolInv_def)
  have n: "0 < int (length (threads w))" using lt by (cases "threads w") simp_all
  have b: "scanIndex w i < length (threads w)"
    using n by (simp add: scanIndex_def nat_less_iff)
  let ?th = "threads w ! scanIndex w i"
  have p: "poolInv (w\<lparr>runningThread := Some ?th, runningThreadIndex := int (scanIndex w i)\<rparr>)"
    using b by (simp add: poolInv_def split: option.split)
  show ?case
    using scanThreads_step [OF m lt] poolInv_setStatus [OF p, of ?th RUNNING None]
      Suc.hyps(1) [of "i + 1"] Suc.hyps(2)
    by simp
qed

text \<open>Every operation of the pool and of a thread keeps the pool's bookkeeping.\<close>

lemma poolInv_preserved:
  assumes "poolInv w"
  shows "poolInv (finalWorld (scheduleNextThreadTick w))"
    "poolInv (finalWorld (setStatus t s m w))"
    "poolInv (finalWorld (asyncReturn t rv rv2 w))"
    "poolInv (finalWorld (park t w))"
    "poolInv (finalWorld (unpark t w))"
    "poolInv (finalWorld (completelyUnpark t w))"
    "poolInv (finalWorld (threadTerminated t w))"
    "poolInv (finalWorld (run t w))"
proof -
  show "poolInv (finalWorld (run t w))"
    by (rule poolInv_run [OF assms])
  show "poolInv (finalWorld (scheduleNextThreadTick w))"
    using poolInv_scanThreads [OF assms, of 0] assms by (simp add: scheduleNextThreadTick_def)
  show "poolInv (finalWorld (setStatus t s m w))"
    by (rule poolInv_setStatus [OF assms])
  show "poolInv (finalWorld (asyncReturn t rv rv2 w))"
    by (rule poolInv_asyncReturn [OF assms])
  have c: "\<And>n. poolInv (setParkCount t n w)"
    using assms by (simp add: poolInv_basic)
  show "poolInv (finalWorld (park t w))"
    using poolInv_setStatus [OF c] c by (simp add: park_def Let_def)
  show "poolInv (finalWorld (unpark t w))"
    using poolInv_setStatus [OF c] c by (simp add: unpark_def Let_def)
  show "poolInv (finalWorld (completelyUnpark t w))"
    using poolInv_setStatus [OF c] by (simp add: completelyUnpark_def)
  show "poolInv (finalWorld (threadTerminated t w))"
    by (rule poolInv_threadTerminated [OF assms])
qed

lemma poolInv_index: "poolInv w \<Longrightarrow> - 1 \<le> runningThreadIndex w"
  by (simp add: poolInv_def)

lemma poolInv_initial:
  "threads w = [] \<Longrightarrow> runningThread w = None \<Longrightarrow> runningThreadIndex w = - 1 \<Longrightarrow> poolInv w"
  by (simp add: poolInv_def)

lemma poolInv_scheduleException:
  assumes "poolInv w"
  shows "(case scheduleException t e g w of Inl (x, w') \<Rightarrow> poolInv w'
          | Inr (b, g', w') \<Rightarrow> poolInv w')"
proof (cases g)
  case (Bytecode f)
  have a: "poolInv (finalWorld (setStatus t ASYNC_WAITING None w))"
    by (rule poolInv_setStatus [OF assms])
  show ?thesis
    using a assms Bytecode
    by (auto simp: BytecodeStackFrame_scheduleException_def poolInv_basic
          split: handlerSearch.splits sum.splits)
next
  case (Native n)
  then show ?thesis using assms by simp
next
  case (Internal i)
  then show ?thesis using assms by simp
qed

lemma poolInv_unwind:
  "poolInv w \<Longrightarrow> poolInv (finalWorld (unwind t e fs w))"
proof (induction fs arbitrary: w)
  case Nil
  then show ?case by simp
next
  case (Cons g fs)
  show ?case
    using poolInv_scheduleException [OF Cons.prems, of t e g] Cons.IH
    by (auto simp: poolInv_basic split: sum.splits)
qed

lemma poolInv_throwException:
  assumes "poolInv w"
  shows "poolInv (finalWorld (throwException t e w))"
proof (cases "getStatus w t \<noteq> RUNNING \<and> getStatus w t \<noteq> RUNNABLE
              \<and> getStatus w t \<noteq> ASYNC_WAITING")
  case True
  then show ?thesis
    using assms by (simp add: throwException_def)
next
  case False
  define inner where "inner =
     (case stack (heap w t) of
        [] \<Rightarrow> Inr w
      | f # fs \<Rightarrow>
          (let fs1 = (if frameType f = INTERNAL then fs else f # fs) in
           case setStatus t RUNNABLE None (setStack t fs1 w) of
             Inl x \<Rightarrow> Inl x
           | Inr w1 \<Rightarrow> unwind t e fs1 w1))"
  have a: "\<And>fs. poolInv (finalWorld (setStatus t RUNNABLE None (setStack t fs w)))"
    using assms by (intro poolInv_setStatus) (simp add: poolInv_basic)
  have b: "\<And>fs. poolInv (finalWorld (case setStatus t RUNNABLE None (setStack t fs w) of
             Inl x \<Rightarrow> Inl x
           | Inr w1 \<Rightarrow> unwind t e fs w1))"
  proof -
    fix fs
    show "poolInv (finalWorld (case setStatus t RUNNABLE None (setStack t fs w) of
             Inl x \<Rightarrow> Inl x
           | Inr w1 \<Rightarrow> unwind t e fs w1))"
    proof (cases "setStatus t RUNNABLE None (setStack t fs w)")
      case (Inl x)
      then show ?thesis
        using a [of fs] by (cases x) simp
    next
      case (Inr v)
      then show ?thesis
        using a [of fs] poolInv_unwind [of v t e fs] by simp
    qed
  qed
  have i: "poolInv (finalWorld inner)"
  proof (cases "stack (heap w t)")
    case Nil
    then show ?thesis using assms by (simp add: inner_def)
  next
    case (Cons f fs)
    then show ?thesis
      using b by (simp add: inner_def Let_def)
  qed
  have te: "throwException t e w =
      (case inner of
         Inl x \<Rightarrow> Inl x
       | Inr w2 \<Rightarrow>
           if stack (heap w2 t) = [] then handleUncaughtException t e w2 else Inr w2)"
    using False unfolding throwException_def inner_def by (simp only: if_False)
  show ?thesis
  proof (cases inner)
    case (Inl x)
    then show ?thesis
      using i by (cases x) (simp add: te)
  next
    case (Inr v)
    then show ?thesis
      using i by (simp add: te handleUncaughtException_def poolInv_basic)
  qed
qed

end
